theory Spec2Isabelle
  imports Complex_Main
begin

section \<open>Lazy matrix march: the data model\<close>

text \<open>
  The repository holds two revisions of the engine's translation unit: \<^verbatim>\<open>src/lmm.cpp\<close>
  and \<^verbatim>\<open>src/unnamed/part_000\<close>. The header (\<^verbatim>\<open>src/unnamed/part_001\<close>) is shared.
  The functions whose text is the same in both revisions (\<^verbatim>\<open>maxPossibleScore\<close>,
  \<^verbatim>\<open>metric\<close>, \<^verbatim>\<open>insertCandidate\<close>, \<^verbatim>\<open>popCandidate\<close>) are embedded once. The
  functions that differ (\<^verbatim>\<open>addCandidate\<close>, \<^verbatim>\<open>prune\<close>, \<^verbatim>\<open>step\<close>, \<^verbatim>\<open>run\<close>) are
  embedded twice: the plain name is the text of \<^verbatim>\<open>src/lmm.cpp\<close>, the name with the suffix
  \<open>_p0\<close> is the text of \<^verbatim>\<open>src/unnamed/part_000\<close>.

  Numbers. \<^verbatim>\<open>u32\<close> values are naturals below \<open>2 ^ 32\<close> with the wrap-around written out.
  \<^verbatim>\<open>float\<close> values are modelled as reals: sums and comparisons are exact. Every concrete
  input below uses match values from \<open>{0, 1/128, 1/2, 127/128, 1}\<close> on matrices of at
  most four rows, where the sums of the C++ float arithmetic are exact as well, and where
  two metrics that differ do so by more than \<open>1/200\<close>, so rounding \<^verbatim>\<open>0.01 * score\<close>
  cannot change an ordering.

  Failure. \<^verbatim>\<open>dlg_assert\<close> is \<^verbatim>\<open>assert\<close> (\<^verbatim>\<open>src/unnamed/part_002\<close>): a failed assertion
  ends the run with \<open>AssertionFailed\<close>. An access outside a span is undefined behaviour in
  C++; the model ends the run with \<open>OutOfBounds\<close> at the access.
\<close>

datatype error = AssertionFailed | OutOfBounds

definition u32 :: "nat \<Rightarrow> nat" where
  "u32 n = n mod 4294967296"

definition u32_sub :: "nat \<Rightarrow> nat \<Rightarrow> nat" where
  "u32_sub a b = (a + 4294967296 - b) mod 4294967296"

text \<open>\<^verbatim>\<open>struct EvalMatch\<close>: both fields start at \<open>-1\<close>.\<close>

record evalMatch =
  eval :: real
  best :: real

text \<open>\<^verbatim>\<open>struct Candidate\<close> without its list links: the lists are HOL lists.\<close>

record candidate =
  cand_i :: nat
  cand_j :: nat
  score :: real

record resultMatch =
  res_i :: nat
  res_j :: nat
  matchVal :: real

text \<open>
  \<^verbatim>\<open>struct Result\<close>. A field or a buffer entry that \<^verbatim>\<open>run\<close> never writes holds whatever
  the memory held before: it is \<open>None\<close>.
\<close>

record result =
  totalMatch :: "real option"
  matches :: "resultMatch option list"

text \<open>
  The members of \<^verbatim>\<open>struct LazyMatrixMarch\<close>. \<open>queue\<close> is the frontier from head
  (\<^verbatim>\<open>queue_.next\<close>) to tail (\<^verbatim>\<open>queue_.prev\<close>), \<open>freeList\<close> the recycled nodes from
  \<^verbatim>\<open>freeList_.next\<close> on. \<open>evalLog\<close> is a ghost field: the arguments of every call of
  the matcher, in order.
\<close>

record lmm =
  width :: nat
  height :: nat
  matcher :: "nat \<Rightarrow> nat \<Rightarrow> real"
  branchThreshold :: real
  matchMatrix :: "evalMatch list"
  bestMatch :: real
  bestRes :: "nat \<times> nat"
  queue :: "candidate list"
  freeList :: "candidate list"
  numEvals :: nat
  numSteps :: nat
  evalLog :: "(nat \<times> nat) list"

section \<open>The functions shared by both revisions\<close>

text \<open>\<^verbatim>\<open>vil::maxPossibleScore\<close>: \<^verbatim>\<open>score + std::min(width - i, height - j)\<close>.\<close>

definition maxPossibleScore_free :: "real \<Rightarrow> nat \<Rightarrow> nat \<Rightarrow> nat \<Rightarrow> nat \<Rightarrow> real" where
  "maxPossibleScore_free sc w h i j = sc + real (min (u32_sub w i) (u32_sub h j))"

definition maxPossibleScore :: "lmm \<Rightarrow> real \<Rightarrow> nat \<Rightarrow> nat \<Rightarrow> real" where
  "maxPossibleScore st sc i j = maxPossibleScore_free sc (width st) (height st) i j"

definition upperBound :: "lmm \<Rightarrow> candidate \<Rightarrow> real" where
  "upperBound st c = maxPossibleScore st (score c) (cand_i c) (cand_j c)"

text \<open>\<^verbatim>\<open>metric\<close>: \<^verbatim>\<open>maxPossibleScore(c.score, c.i, c.j) + 0.01 * c.score\<close>.\<close>

definition metric :: "lmm \<Rightarrow> candidate \<Rightarrow> real" where
  "metric st c = maxPossibleScore st (score c) (cand_i c) (cand_j c) + 0.01 * score c"

text \<open>
  The loop of \<^verbatim>\<open>insertCandidate\<close>: walk from the head while the node's metric is
  strictly greater than the new candidate's, then \<^verbatim>\<open>insertBefore\<close> the node reached.
\<close>

fun insertLoop :: "(candidate \<Rightarrow> real) \<Rightarrow> candidate \<Rightarrow> candidate list \<Rightarrow> candidate list" where
  "insertLoop f c [] = [c]"
| "insertLoop f c (x # xs) = (if f x > f c then x # insertLoop f c xs else c # x # xs)"

text \<open>
  \<^verbatim>\<open>insertCandidate\<close>: the node comes from the free list when it has one (its head is
  unlinked), else from the allocator; its three fields are overwritten.
\<close>

definition insertCandidate :: "lmm \<Rightarrow> nat \<Rightarrow> nat \<Rightarrow> real \<Rightarrow> lmm" where
  "insertCandidate st i j sc =
     (let c = \<lparr>cand_i = i, cand_j = j, score = sc\<rparr> in
      st\<lparr>freeList := (case freeList st of [] \<Rightarrow> [] | x # xs \<Rightarrow> xs),
         queue := insertLoop (metric st) c (queue st)\<rparr>)"

definition empty_frontier :: "lmm \<Rightarrow> bool" where
  "empty_frontier st = (queue st = [])"

text \<open>\<^verbatim>\<open>popCandidate\<close>: the head leaves the queue and goes to the front of the free list.\<close>

definition popCandidate :: "lmm \<Rightarrow> error + (candidate \<times> lmm)" where
  "popCandidate st =
     (case queue st of
        [] \<Rightarrow> Inl AssertionFailed
      | c # cs \<Rightarrow> Inr (c, st\<lparr>queue := cs, freeList := c # freeList st\<rparr>))"

text \<open>
  \<^verbatim>\<open>match(i, j)\<close> of the header: the cell \<^verbatim>\<open>matchMatrix_[width() * i + j]\<close>. The
  product and the sum are \<^verbatim>\<open>u32\<close>.
\<close>

definition matchIndex :: "lmm \<Rightarrow> nat \<Rightarrow> nat \<Rightarrow> nat" where
  "matchIndex st i j = u32 (width st * i + j)"

definition match :: "lmm \<Rightarrow> nat \<Rightarrow> nat \<Rightarrow> error + evalMatch" where
  "match st i j =
     (if matchIndex st i j < length (matchMatrix st)
      then Inr (matchMatrix st ! matchIndex st i j) else Inl OutOfBounds)"

text \<open>
  The constructor, from \<^verbatim>\<open>src/unnamed/part_000\<close>: assertions, the matrix of
  \<^verbatim>\<open>width * height\<close> cells, two empty lists, the seed candidate. The constructor of
  \<^verbatim>\<open>src/lmm.cpp\<close> has the assertions and the seed only; it never allocates the matrix
  nor initialises the list anchors, so no step of that revision can run on the state it
  leaves. Both revisions of \<^verbatim>\<open>step\<close> and \<^verbatim>\<open>run\<close> are therefore run from the state
  built here.
\<close>

definition LazyMatrixMarch :: "nat \<Rightarrow> nat \<Rightarrow> (nat \<Rightarrow> nat \<Rightarrow> real) \<Rightarrow> real \<Rightarrow> error + lmm" where
  "LazyMatrixMarch w h f thr =
     (if \<not> w > 0 then Inl AssertionFailed
      else if \<not> h > 0 then Inl AssertionFailed
      else Inr (insertCandidate
        \<lparr>width = w, height = h, matcher = f, branchThreshold = thr,
         matchMatrix = replicate (u32 (w * h)) \<lparr>eval = -1, best = -1\<rparr>,
         bestMatch = -1, bestRes = (0, 0), queue = [], freeList = [],
         numEvals = 0, numSteps = 0, evalLog = []\<rparr> 0 0 0))"

text \<open>
  Lines 58 to 61 of \<^verbatim>\<open>step\<close> (69 to 72 in part_000): an unevaluated cell gets the
  matcher's value and the counter goes up.
\<close>

definition evalCell :: "lmm \<Rightarrow> nat \<Rightarrow> nat \<Rightarrow> lmm" where
  "evalCell st i j =
     (let k = matchIndex st i j; m = matchMatrix st ! k in
      if eval m = -1
      then st\<lparr>matchMatrix := (matchMatrix st)[k := m\<lparr>eval := matcher st i j\<rparr>],
              numEvals := u32 (numEvals st + 1),
              evalLog := evalLog st @ [(i, j)]\<rparr>
      else st)"

section \<open>The revision of src/lmm.cpp\<close>

definition addCandidate :: "lmm \<Rightarrow> real \<Rightarrow> nat \<Rightarrow> nat \<Rightarrow> nat \<Rightarrow> nat \<Rightarrow> lmm" where
  "addCandidate st sc i j addI addJ =
     (if u32 (i + addI) \<ge> width st \<or> u32 (j + addJ) \<ge> height st
      then (if sc > bestMatch st then st\<lparr>bestMatch := sc, bestRes := (i, j)\<rparr> else st)
      else if maxPossibleScore st sc (u32 (i + addI)) (u32 (j + addJ)) > bestMatch st
      then insertCandidate st (u32 (i + addI)) (u32 (j + addJ)) sc
      else st)"

text \<open>
  \<^verbatim>\<open>prune\<close> of \<^verbatim>\<open>src/lmm.cpp\<close>: from the tail, unlink nodes while their upper bound is below
  \<open>minScore\<close>; stop at the first node that is not. The first list is the queue from the
  tail, the second the free list.
\<close>

fun pruneLoop :: "(candidate \<Rightarrow> real) \<Rightarrow> real \<Rightarrow> candidate list \<Rightarrow> candidate list
    \<Rightarrow> candidate list \<times> candidate list" where
  "pruneLoop ub minScore [] fl = ([], fl)"
| "pruneLoop ub minScore (c # cs) fl =
     (if ub c < minScore then pruneLoop ub minScore cs (c # fl) else (c # cs, fl))"

definition prune :: "lmm \<Rightarrow> real \<Rightarrow> lmm" where
  "prune st minScore =
     (case pruneLoop (upperBound st) minScore (rev (queue st)) (freeList st) of
        (q, fl) \<Rightarrow> st\<lparr>queue := rev q, freeList := fl\<rparr>)"

text \<open>Lines 63 to 85 of \<^verbatim>\<open>step\<close>, on the cell of the popped candidate.\<close>

definition expand :: "lmm \<Rightarrow> candidate \<Rightarrow> lmm" where
  "expand st c =
     (let i = cand_i c; j = cand_j c; k = matchIndex st i j; m = matchMatrix st ! k;
          newScore = score c + eval m in
      if newScore > best m then
        (let st1 = st\<lparr>matchMatrix := (matchMatrix st)[k := m\<lparr>best := newScore\<rparr>]\<rparr>;
             st2 = (if eval m > 0 then prune (addCandidate st1 newScore i j 1 1) newScore
                    else st1)
         in if eval m < branchThreshold st2
            then addCandidate (addCandidate st2 (score c) i j 1 0) (score c) i j 0 1
            else st2)
      else st)"

definition step :: "lmm \<Rightarrow> error + (bool \<times> lmm)" where
  "step st =
     (if empty_frontier st then Inr (False, st)
      else case popCandidate (st\<lparr>numSteps := u32 (numSteps st + 1)\<rparr>) of
        Inl e \<Rightarrow> Inl e
      | Inr (c, st1) \<Rightarrow>
          if \<not> upperBound st1 c \<ge> bestMatch st1 then Inl AssertionFailed
          else if \<not> matchIndex st1 (cand_i c) (cand_j c) < length (matchMatrix st1)
          then Inl OutOfBounds
          else if best (matchMatrix st1 ! matchIndex st1 (cand_i c) (cand_j c)) \<ge> score c + 1
          then Inr (True, st1)
          else Inr (True, expand (evalCell st1 (cand_i c) (cand_j c)) c))"

text \<open>
  \<^verbatim>\<open>while(step());\<close> with fuel: \<open>None\<close> when the fuel runs out before \<^verbatim>\<open>step\<close>
  returns false.
\<close>

fun drain :: "nat \<Rightarrow> lmm \<Rightarrow> (error + lmm) option" where
  "drain 0 st = None"
| "drain (Suc n) st =
     (case step st of
        Inl e \<Rightarrow> Some (Inl e)
      | Inr (again, st') \<Rightarrow> if again then drain n st' else Some (Inr st'))"

text \<open>
  The back-walk of \<^verbatim>\<open>run\<close> in \<^verbatim>\<open>src/lmm.cpp\<close> (lines 104 to 129). \<open>outID\<close> is
  \<^verbatim>\<open>u32\<close>: \<^verbatim>\<open>--outID\<close> wraps at zero.
\<close>

function walk :: "lmm \<Rightarrow> nat \<Rightarrow> nat \<Rightarrow> nat \<Rightarrow> resultMatch option list
    \<Rightarrow> error + (nat \<times> resultMatch option list)" where
  "walk st i j outID buf =
     (if i > 0 \<and> j > 0 then
        (case match st i j of Inl e \<Rightarrow> Inl e | Inr sc \<Rightarrow>
         case match st (i - 1) j of Inl e \<Rightarrow> Inl e | Inr up \<Rightarrow>
           if best up = best sc then walk st (i - 1) j outID buf
           else
         case match st i (j - 1) of Inl e \<Rightarrow> Inl e | Inr left \<Rightarrow>
           if best left = best sc then walk st i (j - 1) outID buf
           else
         case match st (i - 1) (j - 1) of Inl e \<Rightarrow> Inl e | Inr diag \<Rightarrow>
           if \<not> best diag < best sc then Inl AssertionFailed
           else if \<not> (eval diag > 0 \<and> eval diag \<le> 1) then Inl AssertionFailed
           else if \<not> eval diag = best sc - best diag then Inl AssertionFailed
           else if \<not> outID < length buf then Inl AssertionFailed
           else walk st (i - 1) (j - 1) (u32_sub outID 1)
                  (buf[outID := Some \<lparr>res_i = i - 1, res_j = j - 1, matchVal = eval diag\<rparr>]))
      else Inr (outID, buf))"
  by pat_completeness auto
termination
  by (relation "measure (\<lambda>(st, i, j, outID, buf). i + j)") auto

declare walk.simps [simp del]

text \<open>
  The rest of \<^verbatim>\<open>run\<close> in \<^verbatim>\<open>src/lmm.cpp\<close>: \<^verbatim>\<open>res.totalMatch\<close> is never assigned,
  \<^verbatim>\<open>outID\<close> starts at \<^verbatim>\<open>maxMatches - 1\<close>, and the result is the last
  \<^verbatim>\<open>maxMatches - outID\<close> entries of the buffer (\<^verbatim>\<open>span::last\<close> beyond the size is
  undefined).
\<close>

definition gather :: "lmm \<Rightarrow> error + result" where
  "gather st =
     (let maxMatches = min (width st) (height st) in
      if \<not> bestMatch st \<ge> 0 then Inl AssertionFailed
      else case walk st (fst (bestRes st)) (snd (bestRes st)) (u32_sub maxMatches 1)
                  (replicate maxMatches None) of
        Inl e \<Rightarrow> Inl e
      | Inr (outID, buf) \<Rightarrow>
          if u32_sub maxMatches outID > length buf then Inl OutOfBounds
          else Inr \<lparr>totalMatch = None,
                    matches = drop (length buf - u32_sub maxMatches outID) buf\<rparr>)"

definition run :: "nat \<Rightarrow> lmm \<Rightarrow> (error + result) option" where
  "run fuel st =
     (case drain fuel st of
        None \<Rightarrow> None
      | Some (Inl e) \<Rightarrow> Some (Inl e)
      | Some (Inr st') \<Rightarrow> Some (gather st'))"

text \<open>
  Any number of calls of the public \<^verbatim>\<open>step\<close>, whatever each call returns: the states
  the engine can be in.
\<close>

fun steps :: "nat \<Rightarrow> lmm \<Rightarrow> error + lmm" where
  "steps 0 st = Inr st"
| "steps (Suc n) st = (case step st of Inl e \<Rightarrow> Inl e | Inr (again, st') \<Rightarrow> steps n st')"

section \<open>The revision of src/unnamed/part_000\<close>

text \<open>\<^verbatim>\<open>addCandidate\<close> with its two assertions on the finished run.\<close>

definition addCandidate_p0 :: "lmm \<Rightarrow> real \<Rightarrow> nat \<Rightarrow> nat \<Rightarrow> nat \<Rightarrow> nat \<Rightarrow> error + lmm" where
  "addCandidate_p0 st sc i j addI addJ =
     (if u32 (i + addI) \<ge> width st \<or> u32 (j + addJ) \<ge> height st
      then (if sc > bestMatch st
            then (if \<not> i < width st then Inl AssertionFailed
                  else if \<not> j < height st then Inl AssertionFailed
                  else Inr (st\<lparr>bestMatch := sc, bestRes := (i, j)\<rparr>))
            else Inr st)
      else if maxPossibleScore st sc (u32 (i + addI)) (u32 (j + addJ)) > bestMatch st
      then Inr (insertCandidate st (u32 (i + addI)) (u32 (j + addJ)) sc)
      else Inr st)"

text \<open>
  \<^verbatim>\<open>prune\<close> under \<^verbatim>\<open>SLOW_BUT_CORRECT_IMPL\<close>: from the tail, every node is looked at; one
  whose upper bound is below \<open>minScore\<close> is unlinked; the loop stops after a node whose
  score is at least \<open>minScore\<close>.
\<close>

fun pruneLoop_p0 :: "(candidate \<Rightarrow> real) \<Rightarrow> real \<Rightarrow> candidate list \<Rightarrow> candidate list
    \<Rightarrow> candidate list \<times> candidate list" where
  "pruneLoop_p0 ub minScore [] fl = ([], fl)"
| "pruneLoop_p0 ub minScore (c # cs) fl =
     (if ub c < minScore
      then (if score c \<ge> minScore then (cs, c # fl)
            else pruneLoop_p0 ub minScore cs (c # fl))
      else (if score c \<ge> minScore then (c # cs, fl)
            else (case pruneLoop_p0 ub minScore cs fl of (q, fl') \<Rightarrow> (c # q, fl'))))"

definition prune_p0 :: "lmm \<Rightarrow> real \<Rightarrow> lmm" where
  "prune_p0 st minScore =
     (case pruneLoop_p0 (upperBound st) minScore (rev (queue st)) (freeList st) of
        (q, fl) \<Rightarrow> st\<lparr>queue := rev q, freeList := fl\<rparr>)"

text \<open>Lines 74 to 92 of \<^verbatim>\<open>step\<close> in part_000, on the cell of the popped candidate.\<close>

definition expand_p0 :: "lmm \<Rightarrow> candidate \<Rightarrow> error + lmm" where
  "expand_p0 st c =
     (let i = cand_i c; j = cand_j c; m = matchMatrix st ! matchIndex st i j in
      case (if eval m > 0
            then (case addCandidate_p0 st (score c + eval m) i j 1 1 of
                    Inl e \<Rightarrow> Inl e
                  | Inr st1 \<Rightarrow> Inr (prune_p0 st1 (score c + eval m)))
            else Inr st) of
        Inl e \<Rightarrow> Inl e
      | Inr st2 \<Rightarrow>
          if eval m < branchThreshold st2
          then (case addCandidate_p0 st2 (score c) i j 1 0 of
                  Inl e \<Rightarrow> Inl e
                | Inr st3 \<Rightarrow> addCandidate_p0 st3 (score c) i j 0 1)
          else Inr st2)"

definition step_p0 :: "lmm \<Rightarrow> error + (bool \<times> lmm)" where
  "step_p0 st =
     (if empty_frontier st then Inr (False, st)
      else case popCandidate (st\<lparr>numSteps := u32 (numSteps st + 1)\<rparr>) of
        Inl e \<Rightarrow> Inl e
      | Inr (c, st1) \<Rightarrow>
          if \<not> upperBound st1 c \<ge> bestMatch st1 then Inl AssertionFailed
          else let k = matchIndex st1 (cand_i c) (cand_j c) in
            if \<not> k < length (matchMatrix st1) then Inl OutOfBounds
            else if best (matchMatrix st1 ! k) \<ge> score c then Inr (True, st1)
            else (case expand_p0
                    (evalCell
                      (st1\<lparr>matchMatrix :=
                         (matchMatrix st1)[k := (matchMatrix st1 ! k)\<lparr>best := score c\<rparr>]\<rparr>)
                      (cand_i c) (cand_j c)) c of
                    Inl e \<Rightarrow> Inl e
                  | Inr st2 \<Rightarrow> Inr (True, st2)))"

fun drain_p0 :: "nat \<Rightarrow> lmm \<Rightarrow> (error + lmm) option" where
  "drain_p0 0 st = None"
| "drain_p0 (Suc n) st =
     (case step_p0 st of
        Inl e \<Rightarrow> Some (Inl e)
      | Inr (again, st') \<Rightarrow> if again then drain_p0 n st' else Some (Inr st'))"

fun steps_p0 :: "nat \<Rightarrow> lmm \<Rightarrow> error + lmm" where
  "steps_p0 0 st = Inr st"
| "steps_p0 (Suc n) st =
     (case step_p0 st of Inl e \<Rightarrow> Inl e | Inr (again, st') \<Rightarrow> steps_p0 n st')"

text \<open>
  The back-walk of \<^verbatim>\<open>run\<close> in part_000 (lines 119 to 146): the equality of line 121 of
  \<^verbatim>\<open>src/lmm.cpp\<close> is a tolerance of \<open>0.001\<close> here, and the entry is written at
  \<^verbatim>\<open>outID - 1\<close>.
\<close>

function walk_p0 :: "lmm \<Rightarrow> nat \<Rightarrow> nat \<Rightarrow> nat \<Rightarrow> resultMatch option list
    \<Rightarrow> error + (nat \<times> resultMatch option list)" where
  "walk_p0 st i j outID buf =
     (if i > 0 \<and> j > 0 then
        (case match st i j of Inl e \<Rightarrow> Inl e | Inr sc \<Rightarrow>
         case match st (i - 1) j of Inl e \<Rightarrow> Inl e | Inr up \<Rightarrow>
           if best up = best sc then walk_p0 st (i - 1) j outID buf
           else
         case match st i (j - 1) of Inl e \<Rightarrow> Inl e | Inr left \<Rightarrow>
           if best left = best sc then walk_p0 st i (j - 1) outID buf
           else
         case match st (i - 1) (j - 1) of Inl e \<Rightarrow> Inl e | Inr diag \<Rightarrow>
           if \<not> best diag < best sc then Inl AssertionFailed
           else if \<not> (eval diag > 0 \<and> eval diag \<le> 1) then Inl AssertionFailed
           else if \<not> \<bar>eval diag - (best sc - best diag)\<bar> < 0.001 then Inl AssertionFailed
           else if \<not> outID \<noteq> 0 then Inl AssertionFailed
           else if \<not> outID - 1 < length buf then Inl OutOfBounds
           else walk_p0 st (i - 1) (j - 1) (outID - 1)
                  (buf[outID - 1 := Some \<lparr>res_i = i - 1, res_j = j - 1, matchVal = eval diag\<rparr>]))
      else Inr (outID, buf))"
  by pat_completeness auto
termination
  by (relation "measure (\<lambda>(st, i, j, outID, buf). i + j)") auto

declare walk_p0.simps [simp del]

text \<open>
  The rest of \<^verbatim>\<open>run\<close> in part_000: \<^verbatim>\<open>res.totalMatch = bestMatch_\<close>, \<^verbatim>\<open>outID\<close> starts
  at \<^verbatim>\<open>maxMatches\<close>, and the cell of \<^verbatim>\<open>bestRes_\<close> is written first when its eval is
  positive.
\<close>

definition gather_p0 :: "lmm \<Rightarrow> error + result" where
  "gather_p0 st =
     (let maxMatches = min (width st) (height st); i = fst (bestRes st); j = snd (bestRes st) in
      if \<not> bestMatch st \<ge> 0 then Inl AssertionFailed
      else case match st i j of Inl e \<Rightarrow> Inl e | Inr lastMatch \<Rightarrow>
        if \<not> bestMatch st \<ge> best lastMatch then Inl AssertionFailed
        else if \<not> bestMatch st - best lastMatch \<le> 1 then Inl AssertionFailed
        else if eval lastMatch > 0 \<and> \<not> u32_sub maxMatches 1 < maxMatches then Inl OutOfBounds
        else case walk_p0 st i j
                    (if eval lastMatch > 0 then u32_sub maxMatches 1 else maxMatches)
                    (if eval lastMatch > 0
                     then (replicate maxMatches None)[u32_sub maxMatches 1 :=
                            Some \<lparr>res_i = i, res_j = j, matchVal = eval lastMatch\<rparr>]
                     else replicate maxMatches None) of
          Inl e \<Rightarrow> Inl e
        | Inr (outID, buf) \<Rightarrow>
            if u32_sub maxMatches outID > length buf then Inl OutOfBounds
            else Inr \<lparr>totalMatch = Some (bestMatch st),
                      matches = drop (length buf - u32_sub maxMatches outID) buf\<rparr>)"

definition run_p0 :: "nat \<Rightarrow> lmm \<Rightarrow> (error + result) option" where
  "run_p0 fuel st =
     (case drain_p0 fuel st of
        None \<Rightarrow> None
      | Some (Inl e) \<Rightarrow> Some (Inl e)
      | Some (Inr st') \<Rightarrow> Some (gather_p0 st'))"

section \<open>Construction followed by run or by steps\<close>

definition construct_run :: "nat \<Rightarrow> nat \<Rightarrow> nat \<Rightarrow> (nat \<Rightarrow> nat \<Rightarrow> real) \<Rightarrow> real
    \<Rightarrow> (error + result) option" where
  "construct_run fuel w h f thr =
     (case LazyMatrixMarch w h f thr of Inl e \<Rightarrow> Some (Inl e) | Inr st \<Rightarrow> run fuel st)"

definition construct_run_p0 :: "nat \<Rightarrow> nat \<Rightarrow> nat \<Rightarrow> (nat \<Rightarrow> nat \<Rightarrow> real) \<Rightarrow> real
    \<Rightarrow> (error + result) option" where
  "construct_run_p0 fuel w h f thr =
     (case LazyMatrixMarch w h f thr of Inl e \<Rightarrow> Some (Inl e) | Inr st \<Rightarrow> run_p0 fuel st)"

definition construct_drain :: "nat \<Rightarrow> nat \<Rightarrow> nat \<Rightarrow> (nat \<Rightarrow> nat \<Rightarrow> real) \<Rightarrow> real
    \<Rightarrow> (error + lmm) option" where
  "construct_drain fuel w h f thr =
     (case LazyMatrixMarch w h f thr of Inl e \<Rightarrow> Some (Inl e) | Inr st \<Rightarrow> drain fuel st)"

definition construct_steps :: "nat \<Rightarrow> nat \<Rightarrow> nat \<Rightarrow> (nat \<Rightarrow> nat \<Rightarrow> real) \<Rightarrow> real \<Rightarrow> error + lmm" where
  "construct_steps n w h f thr =
     (case LazyMatrixMarch w h f thr of Inl e \<Rightarrow> Inl e | Inr st \<Rightarrow> steps n st)"

definition construct_steps_p0 :: "nat \<Rightarrow> nat \<Rightarrow> nat \<Rightarrow> (nat \<Rightarrow> nat \<Rightarrow> real) \<Rightarrow> real \<Rightarrow> error + lmm" where
  "construct_steps_p0 n w h f thr =
     (case LazyMatrixMarch w h f thr of Inl e \<Rightarrow> Inl e | Inr st \<Rightarrow> steps_p0 n st)"

section \<open>The words of the specification\<close>

text \<open>
  A monotone path through the \<open>w\<close> by \<open>h\<close> matrix: index pairs inside the matrix, strictly
  increasing in both coordinates. Its score is the sum of the matcher's values on it.
\<close>

fun monotonePath :: "nat \<Rightarrow> nat \<Rightarrow> (nat \<times> nat) list \<Rightarrow> bool" where
  "monotonePath w h [] = True"
| "monotonePath w h [p] = (fst p < w \<and> snd p < h)"
| "monotonePath w h (p # q # ps) =
     (fst p < w \<and> snd p < h \<and> fst p < fst q \<and> snd p < snd q \<and> monotonePath w h (q # ps))"

definition pathScore :: "(nat \<Rightarrow> nat \<Rightarrow> real) \<Rightarrow> (nat \<times> nat) list \<Rightarrow> real" where
  "pathScore f ps = sum_list (map (\<lambda>p. f (fst p) (snd p)) ps)"

text \<open>What the specification says of insert: a new candidate goes after the entries of
  equal metric, at the first strictly lower position.\<close>

fun insertAfterEqual :: "(candidate \<Rightarrow> real) \<Rightarrow> candidate \<Rightarrow> candidate list \<Rightarrow> candidate list" where
  "insertAfterEqual f c [] = [c]"
| "insertAfterEqual f c (x # xs) =
     (if f x \<ge> f c then x # insertAfterEqual f c xs else c # x # xs)"

text \<open>
  What the specification says of the returned matches: every entry is a match that was
  written, its \<open>matchVal\<close> lies in \<open>(0, 1]\<close>, and the entries are strictly increasing in
  both \<open>i\<close> and \<open>j\<close>.
\<close>

definition entryValid :: "resultMatch option \<Rightarrow> bool" where
  "entryValid e = (case e of None \<Rightarrow> False | Some m \<Rightarrow> 0 < matchVal m \<and> matchVal m \<le> 1)"

definition entryBefore :: "resultMatch option \<Rightarrow> resultMatch option \<Rightarrow> bool" where
  "entryBefore a b =
     (case a of None \<Rightarrow> False
      | Some x \<Rightarrow> (case b of None \<Rightarrow> False
                   | Some y \<Rightarrow> res_i x < res_i y \<and> res_j x < res_j y))"

definition validMatches :: "resultMatch option list \<Rightarrow> bool" where
  "validMatches es = (list_all entryValid es \<and> sorted_wrt entryBefore es)"

section \<open>Invariants of the engine state\<close>

text \<open>
  The candidates of the frontier lie inside the matrix, the frontier is ordered by
  non-increasing metric, and the matcher was only called inside the matrix.
\<close>

definition queueInRange :: "lmm \<Rightarrow> bool" where
  "queueInRange st = list_all (\<lambda>c. cand_i c < width st \<and> cand_j c < height st) (queue st)"

definition sortedQueue :: "lmm \<Rightarrow> bool" where
  "sortedQueue st = sorted_wrt (\<lambda>a b. metric st a \<ge> metric st b) (queue st)"

definition logInRange :: "lmm \<Rightarrow> bool" where
  "logInRange st = list_all (\<lambda>p. fst p < width st \<and> snd p < height st) (evalLog st)"

definition frontierInv :: "lmm \<Rightarrow> bool" where
  "frontierInv st = (queueInRange st \<and> sortedQueue st \<and> logInRange st)"

text \<open>The state after line 46: the head has moved to the free list.\<close>

definition popped :: "lmm \<Rightarrow> lmm" where
  "popped st = st\<lparr>numSteps := u32 (numSteps st + 1), queue := tl (queue st),
                 freeList := hd (queue st) # freeList st\<rparr>"

text \<open>What \<open>expand_p0\<close> returns when none of its assertions fails.\<close>

definition expand_p0_ok :: "lmm \<Rightarrow> candidate \<Rightarrow> lmm" where
  "expand_p0_ok st c =
     (let i = cand_i c; j = cand_j c; m = matchMatrix st ! matchIndex st i j;
          st2 = (if eval m > 0
                 then prune_p0 (addCandidate st (score c + eval m) i j 1 1) (score c + eval m)
                 else st)
      in if eval m < branchThreshold st2
         then addCandidate (addCandidate st2 (score c) i j 1 0) (score c) i j 0 1
         else st2)"

text \<open>
  The flat cells the matcher was called for, in order; and the invariant that ties the
  log of calls to the matrix: a cell holds an eval other than \<open>-1\<close> exactly when it is in
  the log, no cell is in the log twice, and \<^verbatim>\<open>numEvals_\<close> counts the log.
\<close>

definition cellIndexLog :: "lmm \<Rightarrow> nat list" where
  "cellIndexLog st = map (\<lambda>p. matchIndex st (fst p) (snd p)) (evalLog st)"

definition evalsInv :: "lmm \<Rightarrow> bool" where
  "evalsInv st =
     (distinct (cellIndexLog st) \<and>
      set (cellIndexLog st) = {k. k < length (matchMatrix st) \<and> eval (matchMatrix st ! k) \<noteq> -1} \<and>
      numEvals st = length (evalLog st) \<and>
      length (matchMatrix st) = u32 (width st * height st))"

text \<open>
  The invariant behind the assertion at the pop site, for the revision of part_000: every
  candidate of the frontier has an upper bound that is at least \<open>bestMatch\<close> and at least
  the score of every candidate of the frontier; every eval of the matrix is \<open>-1\<close> or in
  \<open>[0, 1]\<close>; width and height are \<^verbatim>\<open>u32\<close> values.
\<close>

definition boundInv :: "lmm \<Rightarrow> bool" where
  "boundInv st =
     (list_all (\<lambda>x. bestMatch st \<le> upperBound st x) (queue st) \<and>
      list_all (\<lambda>x. list_all (\<lambda>y. score x \<le> upperBound st y) (queue st)) (queue st))"

definition evalRangeInv :: "lmm \<Rightarrow> bool" where
  "evalRangeInv st = list_all (\<lambda>m. eval m = -1 \<or> (0 \<le> eval m \<and> eval m \<le> 1)) (matchMatrix st)"

definition u32Dims :: "lmm \<Rightarrow> bool" where
  "u32Dims st = (width st < 4294967296 \<and> height st < 4294967296)"

text \<open>
  Inside one step, after the diagonal child and the prune: the invariant, and for the
  popped candidate of score \<open>s\<close> the bounds \<open>s \<le> upperBound x\<close> and \<open>score x \<le> b\<close> on
  every candidate \<open>x\<close> of the frontier.
\<close>

definition stageInv :: "real \<Rightarrow> real \<Rightarrow> lmm \<Rightarrow> bool" where
  "stageInv s b st =
     (frontierInv st \<and> boundInv st \<and>
      list_all (\<lambda>x. s \<le> upperBound st x \<and> score x \<le> b) (queue st))"

definition fullInv :: "lmm \<Rightarrow> bool" where
  "fullInv st = (frontierInv st \<and> boundInv st \<and> evalRangeInv st \<and> u32Dims st)"

text \<open>
  The invariant of the back-walk of part_000 at position \<open>(i, j)\<close>: the entries written so
  far, from \<open>outID\<close> on, are valid matches at or beyond \<open>(i, j)\<close>.
\<close>

definition entryFrom :: "nat \<Rightarrow> nat \<Rightarrow> resultMatch option \<Rightarrow> bool" where
  "entryFrom i j e = (case e of None \<Rightarrow> False | Some m \<Rightarrow> i \<le> res_i m \<and> j \<le> res_j m)"

definition walkInv :: "nat \<Rightarrow> nat \<Rightarrow> nat \<Rightarrow> resultMatch option list \<Rightarrow> bool" where
  "walkInv i j outID buf =
     (outID \<le> length buf \<and> validMatches (drop outID buf) \<and>
      list_all (entryFrom i j) (drop outID buf))"

section \<open>Evaluation on concrete inputs\<close>

lemma drain_numeral:
  "drain (numeral k) st =
     (case step st of
        Inl e \<Rightarrow> Some (Inl e)
      | Inr (again, st') \<Rightarrow> if again then drain (pred_numeral k) st' else Some (Inr st'))"
  by (simp add: numeral_eq_Suc)

lemma drain_p0_numeral:
  "drain_p0 (numeral k) st =
     (case step_p0 st of
        Inl e \<Rightarrow> Some (Inl e)
      | Inr (again, st') \<Rightarrow> if again then drain_p0 (pred_numeral k) st' else Some (Inr st'))"
  by (simp add: numeral_eq_Suc)

lemma steps_numeral:
  "steps (numeral k) st =
     (case step st of Inl e \<Rightarrow> Inl e | Inr (again, st') \<Rightarrow> steps (pred_numeral k) st')"
  by (simp add: numeral_eq_Suc)

lemma steps_p0_numeral:
  "steps_p0 (numeral k) st =
     (case step_p0 st of Inl e \<Rightarrow> Inl e | Inr (again, st') \<Rightarrow> steps_p0 (pred_numeral k) st')"
  by (simp add: numeral_eq_Suc)

lemma replicate_numeral_unfold: "replicate (numeral k) x = x # replicate (pred_numeral k) x"
  by (simp add: numeral_eq_Suc)

lemma list_update_numeral_unfold: "(x # xs)[numeral k := v] = x # xs[pred_numeral k := v]"
  by (simp add: numeral_eq_Suc)

lemmas lmm_eval =
  LazyMatrixMarch_def run_def gather_def step_def expand_def evalCell_def
  prune_def addCandidate_def popCandidate_def empty_frontier_def insertCandidate_def
  match_def matchIndex_def metric_def upperBound_def maxPossibleScore_def
  maxPossibleScore_free_def u32_def u32_sub_def Let_def walk.simps
  run_p0_def gather_p0_def step_p0_def expand_p0_def prune_p0_def addCandidate_p0_def
  walk_p0.simps drain_numeral drain_p0_numeral steps_numeral steps_p0_numeral
  replicate_numeral_unfold list_update_numeral_unfold
  construct_run_def construct_run_p0_def construct_drain_def construct_steps_def
  construct_steps_p0_def

section \<open>The frontier invariant\<close>

subsection \<open>The loops on lists\<close>

lemma set_insertLoop: "set (insertLoop f c xs) = insert c (set xs)"
  by (induction xs) auto

lemma insertLoop_sorted:
  "sorted_wrt (\<lambda>a b. (f a :: real) \<ge> f b) xs \<Longrightarrow> sorted_wrt (\<lambda>a b. f a \<ge> f b) (insertLoop f c xs)"
  by (induction xs) (auto simp: set_insertLoop)

lemma pruneLoop_set: "set (fst (pruneLoop ub m xs fl)) \<subseteq> set xs"
  by (induction xs arbitrary: fl) auto

lemma pruneLoop_sorted: "sorted_wrt P xs \<Longrightarrow> sorted_wrt P (fst (pruneLoop ub m xs fl))"
  by (induction xs arbitrary: fl) auto

lemma pruneLoop_p0_set: "set (fst (pruneLoop_p0 ub m xs fl)) \<subseteq> set xs"
  by (induction xs arbitrary: fl) (auto simp: case_prod_beta)

lemma pruneLoop_p0_sorted: "sorted_wrt P xs \<Longrightarrow> sorted_wrt P (fst (pruneLoop_p0 ub m xs fl))"
proof (induction xs arbitrary: fl)
  case Nil
  then show ?case by simp
next
  case (Cons c cs)
  have sub: "\<And>fl'. set (fst (pruneLoop_p0 ub m cs fl')) \<subseteq> set cs"
    by (rule pruneLoop_p0_set)
  from Cons show ?case
    using sub by (auto simp: case_prod_beta)
qed

subsection \<open>Fields an operation leaves alone\<close>

lemma insertCandidate_config [simp]:
  "width (insertCandidate st i j sc) = width st"
  "height (insertCandidate st i j sc) = height st"
  "matcher (insertCandidate st i j sc) = matcher st"
  "branchThreshold (insertCandidate st i j sc) = branchThreshold st"
  "matchMatrix (insertCandidate st i j sc) = matchMatrix st"
  "evalLog (insertCandidate st i j sc) = evalLog st"
  "numEvals (insertCandidate st i j sc) = numEvals st"
  "bestMatch (insertCandidate st i j sc) = bestMatch st"
  by (simp_all add: insertCandidate_def)

lemma queue_insertCandidate:
  "queue (insertCandidate st i j sc)
     = insertLoop (metric st) \<lparr>cand_i = i, cand_j = j, score = sc\<rparr> (queue st)"
  by (simp add: insertCandidate_def)

lemma addCandidate_config [simp]:
  "width (addCandidate st sc i j a b) = width st"
  "height (addCandidate st sc i j a b) = height st"
  "matcher (addCandidate st sc i j a b) = matcher st"
  "branchThreshold (addCandidate st sc i j a b) = branchThreshold st"
  "matchMatrix (addCandidate st sc i j a b) = matchMatrix st"
  "evalLog (addCandidate st sc i j a b) = evalLog st"
  "numEvals (addCandidate st sc i j a b) = numEvals st"
  by (simp_all add: addCandidate_def)

lemma prune_config [simp]:
  "width (prune st m) = width st"
  "height (prune st m) = height st"
  "matcher (prune st m) = matcher st"
  "branchThreshold (prune st m) = branchThreshold st"
  "matchMatrix (prune st m) = matchMatrix st"
  "evalLog (prune st m) = evalLog st"
  "numEvals (prune st m) = numEvals st"
  "bestMatch (prune st m) = bestMatch st"
  by (simp_all add: prune_def case_prod_beta)

lemma queue_prune:
  "queue (prune st m) = rev (fst (pruneLoop (upperBound st) m (rev (queue st)) (freeList st)))"
  by (simp add: prune_def case_prod_beta)

lemma prune_p0_config [simp]:
  "width (prune_p0 st m) = width st"
  "height (prune_p0 st m) = height st"
  "matcher (prune_p0 st m) = matcher st"
  "branchThreshold (prune_p0 st m) = branchThreshold st"
  "matchMatrix (prune_p0 st m) = matchMatrix st"
  "evalLog (prune_p0 st m) = evalLog st"
  "numEvals (prune_p0 st m) = numEvals st"
  "bestMatch (prune_p0 st m) = bestMatch st"
  by (simp_all add: prune_p0_def case_prod_beta)

lemma queue_prune_p0:
  "queue (prune_p0 st m)
     = rev (fst (pruneLoop_p0 (upperBound st) m (rev (queue st)) (freeList st)))"
  by (simp add: prune_p0_def case_prod_beta)

lemma evalCell_config [simp]:
  "width (evalCell st i j) = width st"
  "height (evalCell st i j) = height st"
  "matcher (evalCell st i j) = matcher st"
  "branchThreshold (evalCell st i j) = branchThreshold st"
  "queue (evalCell st i j) = queue st"
  "bestMatch (evalCell st i j) = bestMatch st"
  "length (matchMatrix (evalCell st i j)) = length (matchMatrix st)"
  by (simp_all add: evalCell_def Let_def)

lemmas inv_defs = frontierInv_def queueInRange_def sortedQueue_def logInRange_def
  metric_def upperBound_def maxPossibleScore_def

lemma frontierInv_insertCandidate:
  assumes "frontierInv st" "i < width st" "j < height st"
  shows "frontierInv (insertCandidate st i j sc)"
proof -
  have "sorted_wrt (\<lambda>a b. metric st a \<ge> metric st b)
          (insertLoop (metric st) \<lparr>cand_i = i, cand_j = j, score = sc\<rparr> (queue st))"
    using assms(1) by (intro insertLoop_sorted) (simp add: frontierInv_def sortedQueue_def)
  then show ?thesis
    using assms
    by (simp add: inv_defs queue_insertCandidate list_all_iff set_insertLoop)
qed

lemma frontierInv_addCandidate: "frontierInv st \<Longrightarrow> frontierInv (addCandidate st sc i j a b)"
proof -
  assume inv: "frontierInv st"
  have "frontierInv (st\<lparr>bestMatch := sc, bestRes := (i, j)\<rparr>)"
    using inv by (simp add: inv_defs)
  with inv show ?thesis
    by (simp add: addCandidate_def frontierInv_insertCandidate)
qed

lemma frontierInv_prune: "frontierInv st \<Longrightarrow> frontierInv (prune st m)"
proof -
  assume inv: "frontierInv st"
  have s: "sorted_wrt (\<lambda>a b. metric st b \<ge> metric st a) (rev (queue st))"
    using inv by (simp add: frontierInv_def sortedQueue_def sorted_wrt_rev)
  have "sorted_wrt (\<lambda>a b. metric st a \<ge> metric st b) (queue (prune st m))"
    using pruneLoop_sorted[OF s, of "upperBound st" m "freeList st"]
    by (simp add: queue_prune sorted_wrt_rev)
  moreover have "set (queue (prune st m)) \<subseteq> set (queue st)"
    using pruneLoop_set[of "upperBound st" m "rev (queue st)" "freeList st"]
    by (simp add: queue_prune)
  ultimately show ?thesis
    using inv by (auto simp: inv_defs list_all_iff)
qed

lemma frontierInv_prune_p0: "frontierInv st \<Longrightarrow> frontierInv (prune_p0 st m)"
proof -
  assume inv: "frontierInv st"
  have s: "sorted_wrt (\<lambda>a b. metric st b \<ge> metric st a) (rev (queue st))"
    using inv by (simp add: frontierInv_def sortedQueue_def sorted_wrt_rev)
  have "sorted_wrt (\<lambda>a b. metric st a \<ge> metric st b) (queue (prune_p0 st m))"
    using pruneLoop_p0_sorted[OF s, of "upperBound st" m "freeList st"]
    by (simp add: queue_prune_p0 sorted_wrt_rev)
  moreover have "set (queue (prune_p0 st m)) \<subseteq> set (queue st)"
    using pruneLoop_p0_set[of "upperBound st" m "rev (queue st)" "freeList st"]
    by (simp add: queue_prune_p0)
  ultimately show ?thesis
    using inv by (auto simp: inv_defs list_all_iff)
qed

lemma frontierInv_evalCell:
  "frontierInv st \<Longrightarrow> i < width st \<Longrightarrow> j < height st \<Longrightarrow> frontierInv (evalCell st i j)"
  by (simp add: evalCell_def Let_def inv_defs)

lemma frontierInv_matchMatrix [simp]:
  "frontierInv (st\<lparr>matchMatrix := M\<rparr>) = frontierInv st"
  by (simp add: inv_defs)

lemma frontierInv_expand: "frontierInv st \<Longrightarrow> frontierInv (expand st c)"
  by (simp add: expand_def Let_def frontierInv_addCandidate frontierInv_prune)

lemma expand_config [simp]:
  "width (expand st c) = width st"
  "height (expand st c) = height st"
  "matcher (expand st c) = matcher st"
  "branchThreshold (expand st c) = branchThreshold st"
  by (simp_all add: expand_def Let_def)


lemma addCandidate_p0_Inr:
  "addCandidate_p0 st sc i j a b = Inr st' \<Longrightarrow> st' = addCandidate st sc i j a b"
  by (auto simp: addCandidate_p0_def addCandidate_def split: if_splits)

lemma expand_p0_Inr: "expand_p0 st c = Inr st' \<Longrightarrow> st' = expand_p0_ok st c"
  by (auto simp: expand_p0_def expand_p0_ok_def Let_def split: if_splits sum.splits
      dest!: addCandidate_p0_Inr)

lemma frontierInv_expand_p0_ok: "frontierInv st \<Longrightarrow> frontierInv (expand_p0_ok st c)"
  by (simp add: expand_p0_ok_def Let_def frontierInv_addCandidate frontierInv_prune_p0)

lemma expand_p0_ok_config [simp]:
  "width (expand_p0_ok st c) = width st"
  "height (expand_p0_ok st c) = height st"
  "matcher (expand_p0_ok st c) = matcher st"
  "branchThreshold (expand_p0_ok st c) = branchThreshold st"
  by (simp_all add: expand_p0_ok_def Let_def)

lemma step_Inr:
  assumes "step st = Inr (b, st')"
  shows "(queue st = [] \<and> st' = st \<and> \<not> b) \<or>
         (queue st \<noteq> [] \<and> b \<and> upperBound st (hd (queue st)) \<ge> bestMatch st \<and>
          matchIndex st (cand_i (hd (queue st))) (cand_j (hd (queue st))) < length (matchMatrix st) \<and>
          (st' = popped st \<or>
           st' = expand (evalCell (popped st) (cand_i (hd (queue st))) (cand_j (hd (queue st))))
                   (hd (queue st))))"
  using assms
  by (cases "queue st")
     (auto simp: step_def empty_frontier_def popCandidate_def popped_def upperBound_def
        maxPossibleScore_def matchIndex_def split: if_splits)

lemma step_p0_Inr:
  assumes "step_p0 st = Inr (b, st')"
  shows "(queue st = [] \<and> st' = st \<and> \<not> b) \<or>
         (queue st \<noteq> [] \<and> b \<and> upperBound st (hd (queue st)) \<ge> bestMatch st \<and>
          matchIndex st (cand_i (hd (queue st))) (cand_j (hd (queue st))) < length (matchMatrix st) \<and>
          (st' = popped st \<or>
           st' = expand_p0_ok
                   (evalCell
                     ((popped st)\<lparr>matchMatrix := (matchMatrix st)
                        [matchIndex st (cand_i (hd (queue st))) (cand_j (hd (queue st))) :=
                           (matchMatrix st ! matchIndex st (cand_i (hd (queue st))) (cand_j (hd (queue st))))
                           \<lparr>best := score (hd (queue st))\<rparr>]\<rparr>)
                     (cand_i (hd (queue st))) (cand_j (hd (queue st))))
                   (hd (queue st))))"
  using assms
  by (cases "queue st")
     (auto simp: step_p0_def empty_frontier_def popCandidate_def popped_def upperBound_def
        maxPossibleScore_def matchIndex_def Let_def split: if_splits sum.splits
        dest!: expand_p0_Inr)

lemma popped_config [simp]:
  "width (popped st) = width st"
  "height (popped st) = height st"
  "matcher (popped st) = matcher st"
  "branchThreshold (popped st) = branchThreshold st"
  "matchMatrix (popped st) = matchMatrix st"
  "evalLog (popped st) = evalLog st"
  "numEvals (popped st) = numEvals st"
  "bestMatch (popped st) = bestMatch st"
  "queue (popped st) = tl (queue st)"
  by (simp_all add: popped_def)

lemma frontierInv_popped: "frontierInv st \<Longrightarrow> frontierInv (popped st)"
  by (cases "queue st") (auto simp: inv_defs)

lemma frontierInv_hd:
  "frontierInv st \<Longrightarrow> queue st \<noteq> [] \<Longrightarrow>
   cand_i (hd (queue st)) < width st \<and> cand_j (hd (queue st)) < height st"
  by (cases "queue st") (auto simp: inv_defs)

lemma step_frontierInv:
  assumes "step st = Inr (b, st')" "frontierInv st"
  shows "frontierInv st' \<and> width st' = width st \<and> height st' = height st \<and>
         matcher st' = matcher st \<and> branchThreshold st' = branchThreshold st"
  using step_Inr[OF assms(1)] assms(2) frontierInv_hd[OF assms(2)]
  by (auto simp: frontierInv_popped frontierInv_expand frontierInv_evalCell)

lemma step_p0_frontierInv:
  assumes "step_p0 st = Inr (b, st')" "frontierInv st"
  shows "frontierInv st' \<and> width st' = width st \<and> height st' = height st \<and>
         matcher st' = matcher st \<and> branchThreshold st' = branchThreshold st"
  using step_p0_Inr[OF assms(1)] assms(2) frontierInv_hd[OF assms(2)]
  by (auto simp: frontierInv_popped frontierInv_expand_p0_ok frontierInv_evalCell)

lemma steps_frontierInv:
  "steps n st = Inr st' \<Longrightarrow> frontierInv st \<Longrightarrow>
   frontierInv st' \<and> width st' = width st \<and> height st' = height st \<and>
   matcher st' = matcher st \<and> branchThreshold st' = branchThreshold st"
proof (induction n arbitrary: st)
  case 0
  then show ?case by simp
next
  case (Suc n)
  then obtain b st1 where s: "step st = Inr (b, st1)" and r: "steps n st1 = Inr st'"
    by (auto split: sum.splits)
  from step_frontierInv[OF s Suc.prems(2)] Suc.IH[OF r] show ?case by simp
qed

lemma steps_p0_frontierInv:
  "steps_p0 n st = Inr st' \<Longrightarrow> frontierInv st \<Longrightarrow>
   frontierInv st' \<and> width st' = width st \<and> height st' = height st \<and>
   matcher st' = matcher st \<and> branchThreshold st' = branchThreshold st"
proof (induction n arbitrary: st)
  case 0
  then show ?case by simp
next
  case (Suc n)
  then obtain b st1 where s: "step_p0 st = Inr (b, st1)" and r: "steps_p0 n st1 = Inr st'"
    by (auto split: sum.splits)
  from step_p0_frontierInv[OF s Suc.prems(2)] Suc.IH[OF r] show ?case by simp
qed

lemma LazyMatrixMarch_Inr:
  assumes "LazyMatrixMarch w h f thr = Inr st"
  shows "0 < w \<and> 0 < h \<and> width st = w \<and> height st = h \<and> matcher st = f \<and>
         branchThreshold st = thr \<and> frontierInv st \<and> evalLog st = [] \<and> numEvals st = 0 \<and>
         matchMatrix st = replicate (u32 (w * h)) \<lparr>eval = -1, best = -1\<rparr> \<and>
         bestMatch st = -1 \<and> queue st = [\<lparr>cand_i = 0, cand_j = 0, score = 0\<rparr>]"
  using assms
  by (auto simp: LazyMatrixMarch_def insertCandidate_def inv_defs split: if_splits)

lemma drain_steps: "drain fuel st = Some (Inr st') \<Longrightarrow> \<exists>n. steps n st = Inr st'"
proof (induction fuel arbitrary: st)
  case 0
  then show ?case by simp
next
  case (Suc fuel)
  show ?case
  proof (cases "step st")
    case (Inl e)
    with Suc.prems show ?thesis by simp
  next
    case (Inr p)
    obtain b st1 where p: "p = (b, st1)" by (cases p)
    show ?thesis
    proof (cases b)
      case True
      with Suc.prems Inr p have "drain fuel st1 = Some (Inr st')" by simp
      from Suc.IH[OF this] obtain n where "steps n st1 = Inr st'" ..
      with Inr p have "steps (Suc n) st = Inr st'" by simp
      then show ?thesis ..
    next
      case False
      with Suc.prems Inr p have "st1 = st'" by simp
      with Inr p have "steps (Suc 0) st = Inr st'" by simp
      then show ?thesis ..
    qed
  qed
qed


lemma drain_p0_steps: "drain_p0 fuel st = Some (Inr st') \<Longrightarrow> \<exists>n. steps_p0 n st = Inr st'"
proof (induction fuel arbitrary: st)
  case 0
  then show ?case by simp
next
  case (Suc fuel)
  show ?case
  proof (cases "step_p0 st")
    case (Inl e)
    with Suc.prems show ?thesis by simp
  next
    case (Inr p)
    obtain b st1 where p: "p = (b, st1)" by (cases p)
    show ?thesis
    proof (cases b)
      case True
      with Suc.prems Inr p have "drain_p0 fuel st1 = Some (Inr st')" by simp
      from Suc.IH[OF this] obtain n where "steps_p0 n st1 = Inr st'" ..
      with Inr p have "steps_p0 (Suc n) st = Inr st'" by simp
      then show ?thesis ..
    next
      case False
      with Suc.prems Inr p have "st1 = st'" by simp
      with Inr p have "steps_p0 (Suc 0) st = Inr st'" by simp
      then show ?thesis ..
    qed
  qed
qed

lemma insertLoop_takeWhile:
  "insertLoop f c xs = takeWhile (\<lambda>x. f x > f c) xs @ c # dropWhile (\<lambda>x. f x > f c) xs"
  by (induction xs) auto

lemma reachable_frontierInv:
  assumes "construct_steps n w h f thr = Inr st \<or> construct_steps_p0 n w h f thr = Inr st"
  shows "frontierInv st \<and> width st = w \<and> height st = h \<and> matcher st = f \<and>
         branchThreshold st = thr"
proof -
  from assms obtain st0 where c: "LazyMatrixMarch w h f thr = Inr st0"
    and r: "steps n st0 = Inr st \<or> steps_p0 n st0 = Inr st"
    by (auto simp: construct_steps_def construct_steps_p0_def split: sum.splits)
  from LazyMatrixMarch_Inr[OF c] r show ?thesis
    by (auto dest: steps_frontierInv steps_p0_frontierInv)
qed

section \<open>The invariant of the evaluation log\<close>

lemma evaluated_best_update:
  "{k'. k' < length M \<and> eval (M[k := (M ! k)\<lparr>best := x\<rparr>] ! k') \<noteq> -1}
     = {k'. k' < length M \<and> eval (M ! k') \<noteq> -1}"
  by (cases "k < length M") (auto simp: nth_list_update)

lemmas evalsInv_defs = evalsInv_def cellIndexLog_def matchIndex_def

lemma evalsInv_best_update:
  "evalsInv (st\<lparr>matchMatrix := (matchMatrix st)[k := (matchMatrix st ! k)\<lparr>best := x\<rparr>]\<rparr>) = evalsInv st"
  by (simp add: evalsInv_defs evaluated_best_update)

lemma evalsInv_popped [simp]: "evalsInv (popped st) = evalsInv st"
  by (simp add: evalsInv_defs)

lemma evalsInv_addCandidate [simp]: "evalsInv (addCandidate st sc i j a b) = evalsInv st"
  by (simp add: evalsInv_defs)

lemma evalsInv_prune [simp]: "evalsInv (prune st m) = evalsInv st"
  by (simp add: evalsInv_defs)

lemma evalsInv_prune_p0 [simp]: "evalsInv (prune_p0 st m) = evalsInv st"
  by (simp add: evalsInv_defs)

lemma evalsInv_expand: "evalsInv (expand st c) = evalsInv st"
  by (simp add: expand_def Let_def evalsInv_best_update)

lemma evalsInv_expand_p0_ok: "evalsInv (expand_p0_ok st c) = evalsInv st"
  by (simp add: expand_p0_ok_def Let_def)

lemma u32_less: "u32 n < 4294967296"
  by (simp add: u32_def)

lemma evalsInv_evalCell:
  assumes inv: "evalsInv st" and k: "matchIndex st i j < length (matchMatrix st)"
    and f: "matcher st i j \<noteq> -1"
  shows "evalsInv (evalCell st i j)"
proof (cases "eval (matchMatrix st ! matchIndex st i j) = -1")
  case False
  with inv show ?thesis by (simp add: evalCell_def Let_def)
next
  case True
  let ?k = "matchIndex st i j"
  let ?M = "matchMatrix st"
  let ?E = "{k'. k' < length ?M \<and> eval (?M ! k') \<noteq> -1}"
  from inv have d: "distinct (cellIndexLog st)" and s: "set (cellIndexLog st) = ?E"
    and n: "numEvals st = length (evalLog st)" and l: "length ?M = u32 (width st * height st)"
    by (simp_all add: evalsInv_def)
  from True s have notin: "?k \<notin> set (cellIndexLog st)" by simp
  have "?E \<subseteq> {..<length ?M} - {?k}" using True by auto
  then have "card ?E \<le> card ({..<length ?M} - {?k})" by (intro card_mono) auto
  also have "\<dots> < length ?M" using k by (simp add: card_Diff_singleton_if)
  finally have "card ?E < length ?M" .
  moreover have "card ?E = length (evalLog st)"
    using distinct_card[OF d] s by (simp add: cellIndexLog_def)
  ultimately have "Suc (length (evalLog st)) < 4294967296"
    using l u32_less[of "width st * height st"] by simp
  then have u: "u32 (Suc (numEvals st)) = Suc (length (evalLog st))"
    using n by (simp add: u32_def)
  have E': "{k'. k' < length ?M \<and>
              eval (?M[?k := (?M ! ?k)\<lparr>eval := matcher st i j\<rparr>] ! k') \<noteq> -1} = insert ?k ?E"
    using k f by (auto simp: nth_list_update)
  show ?thesis
    using True d s notin l u E'
    by (simp add: evalCell_def Let_def evalsInv_def cellIndexLog_def)
       (simp add: matchIndex_def)
qed

lemma step_evalsInv:
  assumes "step st = Inr (b, st')" "evalsInv st" "\<And>i j. matcher st i j \<noteq> -1"
  shows "evalsInv st'"
  using step_Inr[OF assms(1)] assms(2,3)
  by (auto simp: evalsInv_expand matchIndex_def intro!: evalsInv_evalCell)

lemma step_p0_evalsInv:
  assumes "step_p0 st = Inr (b, st')" "evalsInv st" "\<And>i j. matcher st i j \<noteq> -1"
  shows "evalsInv st'"
proof -
  let ?c = "hd (queue st)"
  let ?k = "matchIndex st (cand_i ?c) (cand_j ?c)"
  let ?st1 = "(popped st)\<lparr>matchMatrix := (matchMatrix st)[?k := (matchMatrix st ! ?k)\<lparr>best := score ?c\<rparr>]\<rparr>"
  have 1: "evalsInv ?st1 = evalsInv (popped st)"
    using evalsInv_best_update[of "popped st" ?k "score ?c"] by simp
  have 2: "matchIndex ?st1 (cand_i ?c) (cand_j ?c) = ?k" "length (matchMatrix ?st1) = length (matchMatrix st)"
    "matcher ?st1 = matcher st"
    by (simp_all add: matchIndex_def)
  from step_p0_Inr[OF assms(1)] assms(2,3) show ?thesis
    by (auto simp: evalsInv_expand_p0_ok 1 2 simp del: evalsInv_popped intro!: evalsInv_evalCell)
       (simp_all add: matchIndex_def)
qed


lemma steps_evalsInv:
  "steps n st = Inr st' \<Longrightarrow> frontierInv st \<Longrightarrow> evalsInv st \<Longrightarrow>
   (\<And>i j. matcher st i j \<noteq> -1) \<Longrightarrow> evalsInv st'"
proof (induction n arbitrary: st)
  case 0
  then show ?case by simp
next
  case (Suc n)
  from Suc.prems(1) obtain b st1 where s: "step st = Inr (b, st1)" and r: "steps n st1 = Inr st'"
    by (auto split: sum.splits)
  from step_frontierInv[OF s Suc.prems(2)] have f: "frontierInv st1" and m: "matcher st1 = matcher st"
    by simp_all
  from step_evalsInv[OF s Suc.prems(3)] Suc.prems(4) have e: "evalsInv st1" by simp
  show ?case using Suc.IH[OF r f e] m Suc.prems(4) by simp
qed

lemma steps_p0_evalsInv:
  "steps_p0 n st = Inr st' \<Longrightarrow> frontierInv st \<Longrightarrow> evalsInv st \<Longrightarrow>
   (\<And>i j. matcher st i j \<noteq> -1) \<Longrightarrow> evalsInv st'"
proof (induction n arbitrary: st)
  case 0
  then show ?case by simp
next
  case (Suc n)
  from Suc.prems(1) obtain b st1 where s: "step_p0 st = Inr (b, st1)" and r: "steps_p0 n st1 = Inr st'"
    by (auto split: sum.splits)
  from step_p0_frontierInv[OF s Suc.prems(2)] have f: "frontierInv st1" and m: "matcher st1 = matcher st"
    by simp_all
  from step_p0_evalsInv[OF s Suc.prems(3)] Suc.prems(4) have e: "evalsInv st1" by simp
  show ?case using Suc.IH[OF r f e] m Suc.prems(4) by simp
qed

lemma LazyMatrixMarch_evalsInv: "LazyMatrixMarch w h f thr = Inr st \<Longrightarrow> evalsInv st"
  using LazyMatrixMarch_Inr[of w h f thr st] by (auto simp: evalsInv_def cellIndexLog_def)

lemma u32_le: "u32 n \<le> n"
  by (simp add: u32_def)

lemma evalsInv_count:
  assumes "evalsInv st"
  shows "distinct (evalLog st) \<and> numEvals st = length (evalLog st) \<and>
         numEvals st \<le> width st * height st"
proof -
  from assms have d: "distinct (cellIndexLog st)"
    and s: "set (cellIndexLog st) \<subseteq> {..<length (matchMatrix st)}"
    and n: "numEvals st = length (evalLog st)"
    and l: "length (matchMatrix st) = u32 (width st * height st)"
    by (auto simp: evalsInv_def)
  have "length (evalLog st) = card (set (cellIndexLog st))"
    using distinct_card[OF d] by (simp add: cellIndexLog_def)
  also have "\<dots> \<le> card {..<length (matchMatrix st)}"
    using s by (intro card_mono) auto
  finally have "length (evalLog st) \<le> width st * height st"
    using l u32_le[of "width st * height st"] by simp
  moreover from d have "distinct (evalLog st)"
    by (simp add: cellIndexLog_def distinct_map)
  ultimately show ?thesis using n by simp
qed

section \<open>The upper bound of the popped candidate, part_000\<close>

lemma wrap_sub: "b \<le> a \<Longrightarrow> a < (N::nat) \<Longrightarrow> (a + N - b) mod N = a - b"
proof -
  assume h: "b \<le> a" "a < N"
  then have e: "a + N - b = (a - b) + N" by simp
  from h have "a - b < N" by simp
  then show ?thesis unfolding e by simp
qed

lemma u32_sub_eq: "b \<le> a \<Longrightarrow> a < 4294967296 \<Longrightarrow> u32_sub a b = a - b"
  unfolding u32_sub_def by (rule wrap_sub)

lemma maxPossibleScore_in_range:
  assumes "u32Dims st" "i < width st" "j < height st"
  shows "maxPossibleScore st sc i j = sc + real (min (width st - i) (height st - j))"
  using assms
  by (simp add: maxPossibleScore_def maxPossibleScore_free_def u32Dims_def u32_sub_eq)

lemma upperBound_in_range:
  assumes "u32Dims st" "cand_i x < width st" "cand_j x < height st"
  shows "upperBound st x = score x + real (min (width st - cand_i x) (height st - cand_j x))"
    and "score x + 1 \<le> upperBound st x"
proof -
  show e: "upperBound st x = score x + real (min (width st - cand_i x) (height st - cand_j x))"
    using assms by (simp add: upperBound_def maxPossibleScore_in_range)
  have "1 \<le> min (width st - cand_i x) (height st - cand_j x)" using assms(2,3) by arith
  then have "1 \<le> real (min (width st - cand_i x) (height st - cand_j x))"
    by (metis of_nat_1 of_nat_le_iff)
  with e show "score x + 1 \<le> upperBound st x" by simp
qed

lemma metric_upperBound: "metric st x = upperBound st x + score x / 100"
  by (simp add: metric_def upperBound_def)

text \<open>Two facts of linear arithmetic on metrics.\<close>

lemma score_below_head:
  fixes sx ux sc uc :: real
  assumes "ux + sx / 100 \<le> uc + sc / 100" "sx + 1 \<le> ux" "sc + 1 \<le> uc"
  shows "sx \<le> uc - 1"
  using assms by linarith

lemma bound_above_stop:
  fixes sx ux sc uc m :: real
  assumes "uc + sc / 100 \<le> ux + sx / 100" "sx + 1 \<le> ux" "sc + 1 \<le> uc" "m \<le> sc"
  shows "m \<le> ux"
  using assms by linarith


lemma pruneLoop_p0_complete:
  assumes "sorted_wrt (\<lambda>a b. ub a + score a / 100 \<le> ub b + score b / 100) xs"
    and "\<forall>x\<in>set xs. score x + 1 \<le> ub x"
  shows "\<forall>x\<in>set (fst (pruneLoop_p0 ub m xs fl)). m \<le> ub x"
  using assms
proof (induction xs arbitrary: fl)
  case Nil
  then show ?case by simp
next
  case (Cons c cs)
  have ih: "\<And>fl'. \<forall>x\<in>set (fst (pruneLoop_p0 ub m cs fl')). m \<le> ub x"
    using Cons by simp
  have stop: "m \<le> score c \<Longrightarrow> \<forall>x\<in>set cs. m \<le> ub x"
  proof
    fix x assume m: "m \<le> score c" and x: "x \<in> set cs"
    from Cons.prems x have "ub c + score c / 100 \<le> ub x + score x / 100"
      "score x + 1 \<le> ub x" "score c + 1 \<le> ub c" by auto
    from bound_above_stop[OF this m] show "m \<le> ub x" .
  qed
  show ?case
    using ih stop by (auto simp: case_prod_beta)
qed


lemma upperBound_frame [simp]:
  "upperBound (addCandidate st sc i j a b) = upperBound st"
  "upperBound (insertCandidate st i j sc) = upperBound st"
  "upperBound (prune_p0 st m) = upperBound st"
  "upperBound (evalCell st i j) = upperBound st"
  "upperBound (popped st) = upperBound st"
  "upperBound (st\<lparr>matchMatrix := M\<rparr>) = upperBound st"
  "upperBound (st\<lparr>bestMatch := x, bestRes := r\<rparr>) = upperBound st"
  by (simp_all add: fun_eq_iff upperBound_def maxPossibleScore_def)

lemma u32Dims_frame [simp]:
  "u32Dims (addCandidate st sc i j a b) = u32Dims st"
  "u32Dims (insertCandidate st i j sc) = u32Dims st"
  "u32Dims (prune_p0 st m) = u32Dims st"
  "u32Dims (evalCell st i j) = u32Dims st"
  "u32Dims (popped st) = u32Dims st"
  "u32Dims (st\<lparr>matchMatrix := M\<rparr>) = u32Dims st"
  "u32Dims (expand_p0_ok st c) = u32Dims st"
  by (simp_all add: u32Dims_def)

lemma addCandidate_in_range:
  assumes "u32Dims st" "i < width st" "j < height st" "a \<le> 1" "a' \<le> 1"
  shows "addCandidate st sc i j a a' =
     (if i + a \<ge> width st \<or> j + a' \<ge> height st
      then (if sc > bestMatch st then st\<lparr>bestMatch := sc, bestRes := (i, j)\<rparr> else st)
      else if upperBound st \<lparr>cand_i = i + a, cand_j = j + a', score = sc\<rparr> > bestMatch st
      then insertCandidate st (i + a) (j + a') sc else st)"
proof -
  from assms have "i + a < 4294967296" "j + a' < 4294967296" by (auto simp: u32Dims_def)
  then have "u32 (i + a) = i + a" "u32 (j + a') = j + a'" by (simp_all add: u32_def)
  then show ?thesis by (simp add: addCandidate_def upperBound_def)
qed

lemma frontierInv_range:
  assumes "frontierInv st" "u32Dims st" "x \<in> set (queue st)"
  shows "score x + 1 \<le> upperBound st x" "cand_i x < width st" "cand_j x < height st"
proof -
  from assms(1,3) show r: "cand_i x < width st" "cand_j x < height st"
    by (auto simp: frontierInv_def queueInRange_def list_all_iff)
  from upperBound_in_range(2)[OF assms(2) r] show "score x + 1 \<le> upperBound st x" .
qed

lemma stageInv_insert:
  assumes st: "stageInv s b st" and r: "i' < width st" "j' < height st"
    and b1: "bestMatch st \<le> upperBound st \<lparr>cand_i = i', cand_j = j', score = sc\<rparr>"
    and b2: "\<forall>y\<in>set (queue st). sc \<le> upperBound st y"
    and b3: "b \<le> upperBound st \<lparr>cand_i = i', cand_j = j', score = sc\<rparr>"
    and b4: "sc \<le> upperBound st \<lparr>cand_i = i', cand_j = j', score = sc\<rparr>"
    and b5: "s \<le> upperBound st \<lparr>cand_i = i', cand_j = j', score = sc\<rparr>"
    and b6: "sc \<le> b"
  shows "stageInv s b (insertCandidate st i' j' sc)"
proof -
  from st have f: "frontierInv (insertCandidate st i' j' sc)"
    by (simp add: stageInv_def frontierInv_insertCandidate r)
  have q: "set (queue (insertCandidate st i' j' sc))
             = insert \<lparr>cand_i = i', cand_j = j', score = sc\<rparr> (set (queue st))"
    by (simp add: queue_insertCandidate set_insertLoop)
  from st b1 b2 b3 b4 b5 b6 show ?thesis
    unfolding stageInv_def boundInv_def list_all_iff q
    by (simp add: f) fastforce
qed

lemma stageInv_bestMatch:
  assumes "stageInv s b st" "sc \<le> s"
  shows "stageInv s b (st\<lparr>bestMatch := sc, bestRes := r\<rparr>)"
proof -
  have "frontierInv (st\<lparr>bestMatch := sc, bestRes := r\<rparr>) = frontierInv st"
    by (simp add: inv_defs)
  with assms show ?thesis
    unfolding stageInv_def boundInv_def list_all_iff by simp fastforce
qed

lemma min_step_i: "min (w - i) (h - j) \<le> min (w - (i + 1)) (h - j) + (1::nat)"
  by arith

lemma min_step_j: "min (w - i) (h - j) \<le> min (w - i) (h - (j + 1)) + (1::nat)"
  by arith

lemma min_step_ij: "i + 1 < w \<Longrightarrow> j + 1 < h \<Longrightarrow>
    min (w - (i + 1)) (h - (j + 1)) + (1::nat) = min (w - i) (h - j)"
  by arith

lemma real_le_add1: "(m::nat) \<le> n + 1 \<Longrightarrow> real m \<le> real n + 1"
  by (metis of_nat_1 of_nat_add of_nat_le_iff)

lemma real_ge1: "(1::nat) \<le> n \<Longrightarrow> 1 \<le> real n"
  by (metis of_nat_1 of_nat_le_iff)

text \<open>A child at \<open>(i + a, j + a')\<close> with the parent's score, \<open>a + a' = 1\<close>.\<close>

lemma stageInv_addCandidate_skip:
  assumes st: "stageInv s b st" and d: "u32Dims st" and r: "i < width st" "j < height st"
    and a: "(a = 1 \<and> a' = 0) \<or> (a = 0 \<and> a' = 1)"
    and b: "b = max (s + real (min (width st - i) (height st - j)) - 1) (s + 1)"
  shows "stageInv s b (addCandidate st s i j a a')"
proof -
  let ?new = "\<lparr>cand_i = i + a, cand_j = j + a', score = s\<rparr>"
  have ac: "addCandidate st s i j a a' =
     (if i + a \<ge> width st \<or> j + a' \<ge> height st
      then (if s > bestMatch st then st\<lparr>bestMatch := s, bestRes := (i, j)\<rparr> else st)
      else if upperBound st ?new > bestMatch st
      then insertCandidate st (i + a) (j + a') s else st)"
    using a by (intro addCandidate_in_range[OF d r]) auto
  show ?thesis
  proof (cases "i + a \<ge> width st \<or> j + a' \<ge> height st")
    case True
    with ac st show ?thesis by (simp add: stageInv_bestMatch)
  next
    case False
    then have nr: "i + a < width st" "j + a' < height st" by simp_all
    have u: "upperBound st ?new = s + real (min (width st - (i + a)) (height st - (j + a')))"
      using upperBound_in_range(1)[OF d, of ?new] nr by simp
    have "1 \<le> min (width st - (i + a)) (height st - (j + a'))" using nr by arith
    then have g1: "s + 1 \<le> upperBound st ?new" using u real_ge1 by simp
    have "min (width st - i) (height st - j) \<le> min (width st - (i + a)) (height st - (j + a')) + 1"
      using a min_step_i[of "width st" i "height st" j] min_step_j[of "width st" i "height st" j]
      by auto
    from real_le_add1[OF this]
    have g2: "s + real (min (width st - i) (height st - j)) - 1 \<le> upperBound st ?new"
      using u by simp
    from g1 g2 b have g3: "b \<le> upperBound st ?new" by simp
    have g4: "\<forall>y\<in>set (queue st). s \<le> upperBound st y"
      using st by (auto simp: stageInv_def list_all_iff)
    have g5: "s \<le> b" unfolding b by (simp add: le_max_iff_disj)
    show ?thesis
    proof (cases "upperBound st ?new > bestMatch st")
      case True
      have "stageInv s b (insertCandidate st (i + a) (j + a') s)"
        using g1 g3 g4 g5 True by (intro stageInv_insert[OF st nr]) auto
      with ac False True show ?thesis by simp
    next
      case False
      with ac \<open>\<not> (i + a \<ge> width st \<or> j + a' \<ge> height st)\<close> st show ?thesis by simp
    qed
  qed
qed


lemma prune_p0_complete:
  assumes f: "frontierInv st" and d: "u32Dims st"
  shows "\<forall>x\<in>set (queue (prune_p0 st m)). m \<le> upperBound st x"
proof -
  have s: "sorted_wrt (\<lambda>a b. upperBound st a + score a / 100 \<le> upperBound st b + score b / 100)
             (rev (queue st))"
    using f by (simp add: frontierInv_def sortedQueue_def sorted_wrt_rev metric_upperBound)
  have r: "\<forall>x\<in>set (rev (queue st)). score x + 1 \<le> upperBound st x"
    using frontierInv_range(1)[OF f d] by simp
  from pruneLoop_p0_complete[OF s r, of m "freeList st"] show ?thesis
    by (simp add: queue_prune_p0)
qed

lemma prune_p0_subset: "set (queue (prune_p0 st m)) \<subseteq> set (queue st)"
  using pruneLoop_p0_set[of "upperBound st" m "rev (queue st)" "freeList st"]
  by (simp add: queue_prune_p0)

text \<open>The diagonal child followed by the prune, lines 76 and 79 of part_000.\<close>

lemma stageInv_diag_prune:
  assumes fr: "frontierInv st" and bd: "boundInv st" and d: "u32Dims st"
    and r: "i < width st" "j < height st"
    and old: "\<forall>x\<in>set (queue st). s \<le> upperBound st x \<and> score x \<le> U - 1"
    and U: "U = s + real (min (width st - i) (height st - j))"
    and e: "0 < e" "e \<le> 1"
  shows "stageInv s (max (U - 1) (s + 1)) (prune_p0 (addCandidate st (s + e) i j 1 1) (s + e))"
proof -
  let ?S1 = "addCandidate st (s + e) i j 1 1"
  let ?S2 = "prune_p0 ?S1 (s + e)"
  let ?new = "\<lparr>cand_i = i + 1, cand_j = j + 1, score = s + e\<rparr>"
  let ?b = "max (U - 1) (s + 1)"
  have f1: "frontierInv ?S1" by (rule frontierInv_addCandidate[OF fr])
  have f2: "frontierInv ?S2" by (rule frontierInv_prune_p0[OF f1])
  have pr: "\<forall>x\<in>set (queue ?S2). s + e \<le> upperBound st x"
    using prune_p0_complete[OF f1, of "s + e"] d by simp
  have sub: "set (queue ?S2) \<subseteq> set (queue ?S1)" by (rule prune_p0_subset)
  have bm: "bestMatch ?S2 = bestMatch ?S1" by simp
  have B1: "\<forall>x\<in>set (queue st). bestMatch st \<le> upperBound st x"
    and B2: "\<forall>x\<in>set (queue st). \<forall>y\<in>set (queue st). score x \<le> upperBound st y"
    using bd by (auto simp: boundInv_def list_all_iff)
  have U1: "s \<le> U - 1"
  proof -
    have "1 \<le> min (width st - i) (height st - j)" using r by arith
    from real_ge1[OF this] U show ?thesis by simp
  qed
  have ac: "?S1 =
     (if i + 1 \<ge> width st \<or> j + 1 \<ge> height st
      then (if s + e > bestMatch st then st\<lparr>bestMatch := s + e, bestRes := (i, j)\<rparr> else st)
      else if upperBound st ?new > bestMatch st
      then insertCandidate st (i + 1) (j + 1) (s + e) else st)"
    by (intro addCandidate_in_range[OF d r]) auto
  have goal: "stageInv s ?b ?S2"
    if q: "set (queue ?S1) \<subseteq> insert ?new (set (queue st))"
      and nw: "?new \<in> set (queue ?S1) \<Longrightarrow>
                 bestMatch st \<le> upperBound st ?new \<and> upperBound st ?new = U - 1 + e"
      and b: "bestMatch ?S1 = bestMatch st \<or> bestMatch ?S1 = s + e"
  proof -
    have i: "\<forall>x\<in>set (queue ?S2). bestMatch ?S2 \<le> upperBound ?S2 x"
    proof
      fix x assume x: "x \<in> set (queue ?S2)"
      then have "x = ?new \<and> ?new \<in> set (queue ?S1) \<or> x \<in> set (queue st)" using sub q by auto
      then have "bestMatch st \<le> upperBound st x" using nw B1 by auto
      moreover have "s + e \<le> upperBound st x" using pr x by simp
      ultimately show "bestMatch ?S2 \<le> upperBound ?S2 x" using b by auto
    qed
    have ii: "\<forall>x\<in>set (queue ?S2). \<forall>y\<in>set (queue ?S2). score x \<le> upperBound ?S2 y"
    proof (intro ballI)
      fix x y assume x: "x \<in> set (queue ?S2)" and y: "y \<in> set (queue ?S2)"
      from x have xc: "x = ?new \<or> x \<in> set (queue st)" using sub q by auto
      from y have yc: "y = ?new \<and> ?new \<in> set (queue ?S1) \<or> y \<in> set (queue st)"
        using sub q by auto
      from xc show "score x \<le> upperBound ?S2 y"
      proof
        assume "x = ?new"
        then show ?thesis using pr y by simp
      next
        assume xo: "x \<in> set (queue st)"
        from yc show ?thesis
        proof
          assume "y = ?new \<and> ?new \<in> set (queue ?S1)"
          then show ?thesis using nw old xo e by auto
        next
          assume "y \<in> set (queue st)"
          then show ?thesis using B2 xo by simp
        qed
      qed
    qed
    have iii: "\<forall>x\<in>set (queue ?S2). s \<le> upperBound ?S2 x \<and> score x \<le> ?b"
    proof
      fix x assume x: "x \<in> set (queue ?S2)"
      then have xc: "x = ?new \<or> x \<in> set (queue st)" using sub q by auto
      have "s \<le> upperBound st x" using pr x e by force
      moreover have "score x \<le> ?b" using xc old e by (auto simp: le_max_iff_disj)
      ultimately show "s \<le> upperBound ?S2 x \<and> score x \<le> ?b" by simp
    qed
    from f2 i ii iii show ?thesis
      unfolding stageInv_def boundInv_def list_all_iff by blast
  qed
  show ?thesis
  proof (cases "i + 1 \<ge> width st \<or> j + 1 \<ge> height st")
    case True
    with ac have "queue ?S1 = queue st" "bestMatch ?S1 = bestMatch st \<or> bestMatch ?S1 = s + e"
      by auto
    moreover from this(1) have "?new \<in> set (queue ?S1) \<Longrightarrow> False"
      using frontierInv_range(2,3)[OF fr d, of ?new] True by auto
    ultimately show ?thesis by (intro goal) auto
  next
    case False
    then have nr: "i + 1 < width st" "j + 1 < height st" by simp_all
    have "upperBound st ?new = s + e + real (min (width st - (i + 1)) (height st - (j + 1)))"
      using upperBound_in_range(1)[OF d, of ?new] nr by simp
    moreover have "real (min (width st - (i + 1)) (height st - (j + 1))) + 1
                     = real (min (width st - i) (height st - j))"
      using min_step_ij[OF nr] by (metis of_nat_1 of_nat_add)
    ultimately have un: "upperBound st ?new = U - 1 + e" using U by simp
    show ?thesis
    proof (cases "upperBound st ?new > bestMatch st")
      case True
      with ac False have "?S1 = insertCandidate st (i + 1) (j + 1) (s + e)" by simp
      then have "set (queue ?S1) = insert ?new (set (queue st))" "bestMatch ?S1 = bestMatch st"
        by (simp_all add: queue_insertCandidate set_insertLoop)
      with True un show ?thesis by (intro goal) auto
    next
      case nb: False
      with ac False have "?S1 = st" by simp
      then have "queue ?S1 = queue st" "bestMatch ?S1 = bestMatch st" by simp_all
      moreover have "?new \<in> set (queue st) \<Longrightarrow> bestMatch st \<le> upperBound st ?new"
        using B1 by blast
      ultimately show ?thesis using nb un by (intro goal) auto
    qed
  qed
qed


lemma matchMatrix_expand_p0_ok [simp]: "matchMatrix (expand_p0_ok st c) = matchMatrix st"
  by (simp add: expand_p0_ok_def Let_def)

lemma list_all_update:
  assumes "list_all P xs" "k < length xs \<Longrightarrow> P v"
  shows "list_all P (xs[k := v])"
proof (cases "k < length xs")
  case True
  have "set (xs[k := v]) \<subseteq> insert v (set xs)" by (rule set_update_subset_insert)
  with assms True show ?thesis by (auto simp: list_all_iff)
next
  case False
  with assms(1) show ?thesis by (simp add: list_update_beyond not_less)
qed

lemma evalRangeInv_best_update:
  "evalRangeInv st \<Longrightarrow>
   evalRangeInv (st\<lparr>matchMatrix := (matchMatrix st)[k := (matchMatrix st ! k)\<lparr>best := x\<rparr>]\<rparr>)"
  by (cases "k < length (matchMatrix st)")
     (auto simp: evalRangeInv_def list_all_length nth_list_update list_update_beyond not_less)

lemma evalRangeInv_evalCell:
  assumes "evalRangeInv st" "0 \<le> matcher st i j \<and> matcher st i j \<le> 1"
  shows "evalRangeInv (evalCell st i j)"
  using assms
  by (auto simp: evalRangeInv_def evalCell_def Let_def intro!: list_all_update)

lemma eval_after_evalCell:
  assumes "evalRangeInv st" "0 \<le> matcher st i j \<and> matcher st i j \<le> 1"
    and "matchIndex st i j < length (matchMatrix st)"
  shows "0 \<le> eval (matchMatrix (evalCell st i j) ! matchIndex st i j) \<and>
         eval (matchMatrix (evalCell st i j) ! matchIndex st i j) \<le> 1"
  using assms
  by (auto simp: evalRangeInv_def evalCell_def Let_def list_all_length)

lemma boundInv_popped: "boundInv st \<Longrightarrow> boundInv (popped st)"
  by (cases "queue st") (auto simp: boundInv_def list_all_iff)

lemma boundInv_cong:
  "queue st' = queue st \<Longrightarrow> bestMatch st' = bestMatch st \<Longrightarrow> upperBound st' = upperBound st \<Longrightarrow>
   boundInv st' = boundInv st"
  by (simp add: boundInv_def)

text \<open>The whole of the work of step_p0 on a popped candidate that is not discarded.\<close>

lemma fullInv_expand_p0_ok:
  assumes fr: "frontierInv st" and bd: "boundInv st" and d: "u32Dims st"
    and r: "cand_i c < width st" "cand_j c < height st"
    and old: "\<forall>x\<in>set (queue st). score c \<le> upperBound st x \<and> score x \<le> upperBound st c - 1"
    and e: "0 \<le> eval (matchMatrix st ! matchIndex st (cand_i c) (cand_j c))"
           "eval (matchMatrix st ! matchIndex st (cand_i c) (cand_j c)) \<le> 1"
  shows "frontierInv (expand_p0_ok st c) \<and> boundInv (expand_p0_ok st c)"
proof -
  let ?i = "cand_i c" and ?j = "cand_j c" and ?s = "score c"
  let ?e = "eval (matchMatrix st ! matchIndex st ?i ?j)"
  let ?U = "upperBound st c"
  let ?b = "max (?U - 1) (?s + 1)"
  let ?S2 = "if ?e > 0 then prune_p0 (addCandidate st (?s + ?e) ?i ?j 1 1) (?s + ?e) else st"
  have U: "?U = ?s + real (min (width st - ?i) (height st - ?j))"
    by (rule upperBound_in_range(1)[OF d r])
  have s2: "stageInv ?s ?b ?S2"
  proof (cases "?e > 0")
    case True
    from stageInv_diag_prune[OF fr bd d r old U True e(2)] True show ?thesis by simp
  next
    case False
    from fr bd old show ?thesis
      unfolding stageInv_def list_all_iff using False by (auto simp: le_max_iff_disj)
  qed
  have w2: "width ?S2 = width st" "height ?S2 = height st" "u32Dims ?S2" using d by simp_all
  have b2: "?b = max (?s + real (min (width ?S2 - ?i) (height ?S2 - ?j)) - 1) (?s + 1)"
    using U w2 by simp
  have r2: "?i < width ?S2" "?j < height ?S2" using r w2 by simp_all
  let ?S3 = "addCandidate ?S2 ?s ?i ?j 1 0"
  have s3: "stageInv ?s ?b ?S3"
    by (rule stageInv_addCandidate_skip[OF s2 w2(3) r2 _ b2]) simp
  have w3: "width ?S3 = width st" "height ?S3 = height st" "u32Dims ?S3" using d by simp_all
  have b3: "?b = max (?s + real (min (width ?S3 - ?i) (height ?S3 - ?j)) - 1) (?s + 1)"
    using U w3 by simp
  have r3: "?i < width ?S3" "?j < height ?S3" using r w3 by simp_all
  have s4: "stageInv ?s ?b (addCandidate ?S3 ?s ?i ?j 0 1)"
    by (rule stageInv_addCandidate_skip[OF s3 w3(3) r3 _ b3]) simp
  have "stageInv ?s ?b (expand_p0_ok st c)"
    using s2 s4 unfolding expand_p0_ok_def Let_def by (simp split: if_splits)
  then show ?thesis by (simp add: stageInv_def)
qed


lemma head_dominates:
  assumes fr: "frontierInv st" and bd: "boundInv st" and d: "u32Dims st"
    and q: "queue st = c # cs" and x: "x \<in> set cs"
  shows "score c \<le> upperBound st x \<and> score x \<le> upperBound st c - 1"
proof -
  from bd q x have 1: "score c \<le> upperBound st x"
    by (auto simp: boundInv_def list_all_iff)
  from fr q x have "metric st x \<le> metric st c"
    by (auto simp: frontierInv_def sortedQueue_def)
  then have "upperBound st x + score x / 100 \<le> upperBound st c + score c / 100"
    by (simp add: metric_upperBound)
  moreover have "score x + 1 \<le> upperBound st x" "score c + 1 \<le> upperBound st c"
    using frontierInv_range(1)[OF fr d] q x by simp_all
  ultimately have "score x \<le> upperBound st c - 1" by (rule score_below_head)
  with 1 show ?thesis ..
qed

lemma step_p0_fullInv:
  assumes s: "step_p0 st = Inr (b, st')" and inv: "fullInv st"
    and f: "\<And>i j. 0 \<le> matcher st i j \<and> matcher st i j \<le> 1"
  shows "fullInv st'"
proof -
  from inv have fr: "frontierInv st" and bd: "boundInv st" and er: "evalRangeInv st"
    and d: "u32Dims st" by (simp_all add: fullInv_def)
  let ?c = "hd (queue st)"
  let ?k = "matchIndex st (cand_i ?c) (cand_j ?c)"
  let ?S = "(popped st)\<lparr>matchMatrix := (matchMatrix st)[?k := (matchMatrix st ! ?k)\<lparr>best := score ?c\<rparr>]\<rparr>"
  let ?T = "evalCell ?S (cand_i ?c) (cand_j ?c)"
  have pop: "fullInv (popped st)"
    using inv by (simp add: fullInv_def frontierInv_popped boundInv_popped evalRangeInv_def)
  from step_p0_Inr[OF s] consider
      (idle) "st' = st"
    | (discard) "st' = popped st"
    | (work) "queue st \<noteq> []" "?k < length (matchMatrix st)" "st' = expand_p0_ok ?T ?c"
    by blast
  then show ?thesis
  proof cases
    case idle
    with inv show ?thesis by simp
  next
    case discard
    with pop show ?thesis by simp
  next
    case work
    then obtain cs where q: "queue st = ?c # cs" by (cases "queue st") auto
    from frontierInv_hd[OF fr work(1)] have r: "cand_i ?c < width st" "cand_j ?c < height st"
      by simp_all
    have frS: "frontierInv ?S" using frontierInv_popped[OF fr] by simp
    have frT: "frontierInv ?T" using r by (intro frontierInv_evalCell[OF frS]) simp_all
    have "boundInv ?T = boundInv (popped st)" by (rule boundInv_cong) simp_all
    then have bdT: "boundInv ?T" using boundInv_popped[OF bd] by simp
    have erS: "evalRangeInv ?S"
      using evalRangeInv_best_update[of "popped st" ?k "score ?c"] er
      by (simp add: evalRangeInv_def)
    have fS: "0 \<le> matcher ?S (cand_i ?c) (cand_j ?c) \<and> matcher ?S (cand_i ?c) (cand_j ?c) \<le> 1"
      using f by simp
    have erT: "evalRangeInv ?T" by (rule evalRangeInv_evalCell[OF erS fS])
    have kS: "matchIndex ?S (cand_i ?c) (cand_j ?c) = ?k" "matchIndex ?T (cand_i ?c) (cand_j ?c) = ?k"
      by (simp_all add: matchIndex_def)
    have e: "0 \<le> eval (matchMatrix ?T ! matchIndex ?T (cand_i ?c) (cand_j ?c))"
            "eval (matchMatrix ?T ! matchIndex ?T (cand_i ?c) (cand_j ?c)) \<le> 1"
      using eval_after_evalCell[OF erS fS] work(2) kS by simp_all
    have old: "\<forall>x\<in>set (queue ?T). score ?c \<le> upperBound ?T x \<and> score x \<le> upperBound ?T ?c - 1"
    proof -
      from q have "tl (queue st) = cs" by (metis list.sel(3))
      with head_dominates[OF fr bd d q] show ?thesis by simp
    qed
    have dT: "u32Dims ?T" using d by simp
    have rT: "cand_i ?c < width ?T" "cand_j ?c < height ?T" using r by simp_all
    from fullInv_expand_p0_ok[OF frT bdT dT rT old e] erT dT work(3)
    show ?thesis by (simp add: fullInv_def evalRangeInv_def)
  qed
qed

lemma steps_p0_fullInv:
  "steps_p0 n st = Inr st' \<Longrightarrow> fullInv st \<Longrightarrow>
   (\<And>i j. 0 \<le> matcher st i j \<and> matcher st i j \<le> 1) \<Longrightarrow> fullInv st'"
proof (induction n arbitrary: st)
  case 0
  then show ?case by simp
next
  case (Suc n)
  from Suc.prems(1) obtain b st1 where s: "step_p0 st = Inr (b, st1)" and r: "steps_p0 n st1 = Inr st'"
    by (auto split: sum.splits)
  from Suc.prems(2) have fr: "frontierInv st" by (simp add: fullInv_def)
  from step_p0_frontierInv[OF s fr] have m: "matcher st1 = matcher st" by simp
  from step_p0_fullInv[OF s Suc.prems(2)] Suc.prems(3) have i1: "fullInv st1" by simp
  show ?case using Suc.IH[OF r i1] m Suc.prems(3) by simp
qed

lemma LazyMatrixMarch_fullInv:
  assumes "LazyMatrixMarch w h f thr = Inr st" "w < 4294967296" "h < 4294967296"
  shows "fullInv st"
proof -
  note c = LazyMatrixMarch_Inr[OF assms(1)]
  from c assms(2,3) have d: "u32Dims st" by (simp add: u32Dims_def)
  let ?seed = "\<lparr>cand_i = 0, cand_j = 0, score = 0\<rparr>"
  have "score ?seed + 1 \<le> upperBound st ?seed"
    using upperBound_in_range(2)[OF d, of ?seed] c by simp
  then have "boundInv st" using c by (simp add: boundInv_def)
  moreover have "evalRangeInv st" using c by (simp add: evalRangeInv_def list_all_length)
  ultimately show ?thesis using c d by (simp add: fullInv_def)
qed

lemma addCandidate_p0_no_fail:
  "i < width st \<Longrightarrow> j < height st \<Longrightarrow>
   addCandidate_p0 st sc i j a b = Inr (addCandidate st sc i j a b)"
  by (simp add: addCandidate_p0_def addCandidate_def)

lemma expand_p0_no_fail:
  "cand_i c < width st \<Longrightarrow> cand_j c < height st \<Longrightarrow> expand_p0 st c = Inr (expand_p0_ok st c)"
  by (simp add: expand_p0_def expand_p0_ok_def Let_def addCandidate_p0_no_fail)

lemma step_p0_no_assertion:
  assumes "frontierInv st" "boundInv st"
  shows "step_p0 st \<noteq> Inl AssertionFailed"
proof (cases "queue st")
  case Nil
  then show ?thesis by (simp add: step_p0_def empty_frontier_def)
next
  case (Cons c cs)
  from assms(1) Cons have r: "cand_i c < width st" "cand_j c < height st"
    using frontierInv_hd[OF assms(1)] by simp_all
  from assms(2) Cons have b: "bestMatch st \<le> upperBound st c"
    by (simp add: boundInv_def)
  have ub: "\<And>n fl. upperBound (st\<lparr>numSteps := n, queue := cs, freeList := fl\<rparr>) = upperBound st"
    by (simp add: fun_eq_iff upperBound_def maxPossibleScore_def)
  show ?thesis
    using Cons r b
    by (simp add: step_p0_def empty_frontier_def popCandidate_def Let_def ub expand_p0_no_fail)
qed

section \<open>The result of run in part_000\<close>

lemma drop_update_here: "n < length xs \<Longrightarrow> drop n (xs[n := x]) = x # drop (Suc n) xs"
  by (simp add: drop_update_cancel Cons_nth_drop_Suc[symmetric] upd_conv_take_nth_drop)

lemma entryFrom_mono: "entryFrom i j e \<Longrightarrow> i' \<le> i \<Longrightarrow> j' \<le> j \<Longrightarrow> entryFrom i' j' e"
  by (auto simp: entryFrom_def split: option.splits)

lemma walkInv_mono: "walkInv i j outID buf \<Longrightarrow> i' \<le> i \<Longrightarrow> j' \<le> j \<Longrightarrow> walkInv i' j' outID buf"
  by (auto simp: walkInv_def list_all_iff intro: entryFrom_mono)

lemma walkInv_emit:
  assumes "walkInv i j outID buf" "0 < i" "0 < j" "outID \<noteq> 0" "0 < v" "v \<le> 1"
  shows "walkInv (i - 1) (j - 1) (outID - 1)
           (buf[outID - 1 := Some \<lparr>res_i = i - 1, res_j = j - 1, matchVal = v\<rparr>])"
proof -
  let ?e = "Some \<lparr>res_i = i - 1, res_j = j - 1, matchVal = v\<rparr>"
  from assms(1,4) have lt: "outID - 1 < length buf" by (auto simp: walkInv_def)
  from assms(4) have suc: "Suc (outID - 1) = outID" by simp
  have d: "drop (outID - 1) (buf[outID - 1 := ?e]) = ?e # drop outID buf"
    using drop_update_here[OF lt, of ?e] suc by simp
  have "\<forall>x\<in>set (drop outID buf). entryBefore ?e x"
  proof
    fix x assume "x \<in> set (drop outID buf)"
    with assms(1) have "entryFrom i j x" by (auto simp: walkInv_def list_all_iff)
    then obtain m where "x = Some m" "i \<le> res_i m" "j \<le> res_j m"
      by (cases x) (simp_all add: entryFrom_def)
    moreover from this assms(2,3) have "i - 1 < res_i m" "j - 1 < res_j m" by arith+
    ultimately show "entryBefore ?e x" by (simp add: entryBefore_def)
  qed
  moreover have "\<forall>x\<in>set (drop outID buf). entryFrom (i - 1) (j - 1) x"
    using assms(1) by (auto simp: walkInv_def list_all_iff intro: entryFrom_mono)
  ultimately show ?thesis
    using assms(1,5,6) lt unfolding walkInv_def d
    by (simp add: validMatches_def entryValid_def entryFrom_def list_all_iff)
qed

lemma walk_p0_valid:
  "walk_p0 st i j outID buf = Inr (outID', buf') \<Longrightarrow> walkInv i j outID buf \<Longrightarrow>
   length buf' = length buf \<and> outID' \<le> length buf' \<and> validMatches (drop outID' buf')"
proof (induction st i j outID buf rule: walk_p0.induct)
  case (1 st i j outID buf)
  show ?case
  proof (cases "i > 0 \<and> j > 0")
    case False
    with "1.prems" show ?thesis by (simp add: walk_p0.simps walkInv_def)
  next
    case True
    then have p: "0 < i" "0 < j" by simp_all
    from "1.prems"(1) True obtain sc up where
      sc: "match st i j = Inr sc" and up: "match st (i - 1) j = Inr up"
      by (subst (asm) walk_p0.simps) (auto split: sum.splits)
    show ?thesis
    proof (cases "best up = best sc")
      case True
      with "1.prems"(1) p sc up have w: "walk_p0 st (i - 1) j outID buf = Inr (outID', buf')"
        by (subst (asm) walk_p0.simps) simp
      from "1.IH"(1)[OF \<open>0 < i \<and> 0 < j\<close> sc up True w] walkInv_mono[OF "1.prems"(2)]
      show ?thesis by simp
    next
      case nup: False
      from "1.prems"(1) p sc up nup obtain left where left: "match st i (j - 1) = Inr left"
        by (subst (asm) walk_p0.simps) (auto split: sum.splits)
      show ?thesis
      proof (cases "best left = best sc")
        case True
        with "1.prems"(1) p sc up nup left
        have w: "walk_p0 st i (j - 1) outID buf = Inr (outID', buf')"
          by (subst (asm) walk_p0.simps) simp
        from "1.IH"(2)[OF \<open>0 < i \<and> 0 < j\<close> sc up nup left True w] walkInv_mono[OF "1.prems"(2)]
        show ?thesis by simp
      next
        case nleft: False
        from "1.prems"(1) p sc up nup left nleft obtain diag where
          diag: "match st (i - 1) (j - 1) = Inr diag"
          by (subst (asm) walk_p0.simps) (auto split: sum.splits)
        from "1.prems"(1) p sc up nup left nleft diag
        have a: "best diag < best sc" "eval diag > 0 \<and> eval diag \<le> 1"
          "\<bar>eval diag - (best sc - best diag)\<bar> < 0.001" "outID \<noteq> 0" "outID - 1 < length buf"
          and w: "walk_p0 st (i - 1) (j - 1) (outID - 1)
                    (buf[outID - 1 := Some \<lparr>res_i = i - 1, res_j = j - 1, matchVal = eval diag\<rparr>])
                  = Inr (outID', buf')"
          by (subst (asm) walk_p0.simps, simp split: if_splits)+
        have inv: "walkInv (i - 1) (j - 1) (outID - 1)
                     (buf[outID - 1 := Some \<lparr>res_i = i - 1, res_j = j - 1, matchVal = eval diag\<rparr>])"
          using walkInv_emit[OF "1.prems"(2) p a(4)] a(2) by simp
        from "1.IH"(3)[OF \<open>0 < i \<and> 0 < j\<close> sc up nup left nleft diag _ _ _ _ _ w inv] a
        show ?thesis by simp
      qed
    qed
  qed
qed


lemma match_evalRange:
  assumes "evalRangeInv st" "match st i j = Inr m"
  shows "eval m = -1 \<or> (0 \<le> eval m \<and> eval m \<le> 1)"
  using assms by (auto simp: evalRangeInv_def match_def list_all_length split: if_splits)

lemma gather_p0_valid:
  assumes g: "gather_p0 st = Inr res" and er: "evalRangeInv st" and d: "u32Dims st"
    and pos: "0 < width st" "0 < height st"
  shows "validMatches (matches res) \<and> totalMatch res = Some (bestMatch st)"
proof -
  define mm where "mm = min (width st) (height st)"
  let ?i = "fst (bestRes st)" and ?j = "snd (bestRes st)"
  from d pos have mm: "1 \<le> mm" "mm < 4294967296" by (auto simp: u32Dims_def mm_def)
  then have m1: "u32_sub mm 1 = mm - 1" by (intro u32_sub_eq) simp_all
  have gd: "gather_p0 st =
     (if \<not> bestMatch st \<ge> 0 then Inl AssertionFailed
      else case match st ?i ?j of Inl e \<Rightarrow> Inl e | Inr lastMatch \<Rightarrow>
        if \<not> bestMatch st \<ge> best lastMatch then Inl AssertionFailed
        else if \<not> bestMatch st - best lastMatch \<le> 1 then Inl AssertionFailed
        else if eval lastMatch > 0 \<and> \<not> mm - 1 < mm then Inl OutOfBounds
        else case walk_p0 st ?i ?j
                    (if eval lastMatch > 0 then mm - 1 else mm)
                    (if eval lastMatch > 0
                     then (replicate mm None)[mm - 1 :=
                            Some \<lparr>res_i = ?i, res_j = ?j, matchVal = eval lastMatch\<rparr>]
                     else replicate mm None) of
          Inl e \<Rightarrow> Inl e
        | Inr (outID, buf) \<Rightarrow>
            if u32_sub mm outID > length buf then Inl OutOfBounds
            else Inr \<lparr>totalMatch = Some (bestMatch st),
                      matches = drop (length buf - u32_sub mm outID) buf\<rparr>)"
    unfolding gather_p0_def Let_def mm_def[symmetric] m1 ..
  from g obtain lastMatch where lm: "match st ?i ?j = Inr lastMatch"
    unfolding gd by (auto split: if_splits sum.splits)
  let ?e = "Some \<lparr>res_i = ?i, res_j = ?j, matchVal = eval lastMatch\<rparr>"
  let ?out0 = "if eval lastMatch > 0 then mm - 1 else mm"
  let ?buf0 = "if eval lastMatch > 0 then (replicate mm None)[mm - 1 := ?e] else replicate mm None"
  from g lm obtain outID buf where
    w: "walk_p0 st ?i ?j ?out0 ?buf0 = Inr (outID, buf)"
    and res: "res = \<lparr>totalMatch = Some (bestMatch st),
                     matches = drop (length buf - u32_sub mm outID) buf\<rparr>"
    unfolding gd by (auto split: if_splits sum.splits)
  have inv: "walkInv ?i ?j ?out0 ?buf0"
  proof (cases "eval lastMatch > 0")
    case True
    with match_evalRange[OF er lm] have v: "0 < eval lastMatch" "eval lastMatch \<le> 1" by auto
    have lt: "mm - 1 < length (replicate mm (None :: resultMatch option))"
      using mm(1) by simp
    have s: "Suc (mm - 1) = mm" using mm(1) by simp
    have dr: "drop (mm - 1) ((replicate mm None)[mm - 1 := ?e]) = [?e]"
      using drop_update_here[OF lt, of ?e] by (simp add: s)
    from True v dr show ?thesis
      by (simp add: walkInv_def validMatches_def entryValid_def entryFrom_def)
  next
    case False
    then show ?thesis by (simp add: walkInv_def validMatches_def)
  qed
  from walk_p0_valid[OF w inv] have l: "length buf = mm" and o: "outID \<le> mm"
    and v: "validMatches (drop outID buf)" by (auto split: if_splits)
  from o mm have "u32_sub mm outID = mm - outID" by (intro u32_sub_eq) simp_all
  with l o have "length buf - u32_sub mm outID = outID" by simp
  with res v show ?thesis by simp
qed

text \<open>
  What \<^verbatim>\<open>run\<close> of part_000 returns, whenever it returns: \<open>totalMatch\<close> is assigned and
  the matches are valid in the sense of the specification. (The assertion of line 135
  guards the \<open>matchVal\<close> of every entry the back-walk writes.)
\<close>

lemma run_p0_returns_valid_matches:
  assumes r: "construct_run_p0 fuel w h f thr = Some (Inr res)"
    and f: "\<And>i j. 0 \<le> f i j \<and> f i j \<le> 1"
    and d: "w < 4294967296" "h < 4294967296"
  shows "validMatches (matches res) \<and> totalMatch res \<noteq> None"
proof -
  from r obtain st0 st where c: "LazyMatrixMarch w h f thr = Inr st0"
    and dr: "drain_p0 fuel st0 = Some (Inr st)" and g: "gather_p0 st = Inr res"
    by (auto simp: construct_run_p0_def run_p0_def split: sum.splits option.splits)
  from drain_p0_steps[OF dr] obtain n where s: "steps_p0 n st0 = Inr st" ..
  note c0 = LazyMatrixMarch_Inr[OF c]
  from c0 have m0: "matcher st0 = f" by simp
  have inv: "fullInv st"
    using steps_p0_fullInv[OF s LazyMatrixMarch_fullInv[OF c d]] f m0 by simp
  from c0 have "frontierInv st0" by simp
  from steps_p0_frontierInv[OF s this] c0 have wh: "0 < width st" "0 < height st" by simp_all
  from inv have "evalRangeInv st" "u32Dims st" by (simp_all add: fullInv_def)
  from gather_p0_valid[OF g this wh] show ?thesis by simp
qed

section \<open>Claims settled on concrete inputs\<close>

text \<open>
  C1. With \<^verbatim>\<open>branchThreshold = 1.0\<close> the result is claimed optimal: \<open>totalMatch\<close> is at
  least the score of every monotone path. On the 2 by 3 matrix whose only match is
  \<open>(1, 0)\<close> the path \<open>[(1, 0)]\<close> scores 1, and both revisions end with \<open>bestMatch = 0\<close>
  (\<open>totalMatch = 0\<close> in part_000): \<^verbatim>\<open>match\<close> sends \<open>(0, 2)\<close> and \<open>(1, 0)\<close> to the same
  cell \<open>2\<close>, the cell is evaluated for \<open>(0, 2)\<close> first, and \<open>(1, 0)\<close> reads that value.
\<close>

theorem C1_not_optimal_2x3:
  "monotonePath 2 3 [(1, 0)] \<and>
   pathScore (\<lambda>i j. if i = 1 \<and> j = 0 then 1 else 0) [(1, 0)] = 1 \<and>
   map_option (map_sum id bestMatch)
     (construct_drain 20 2 3 (\<lambda>i j. if i = 1 \<and> j = 0 then 1 else 0) 1) = Some (Inr 0) \<and>
   construct_run_p0 20 2 3 (\<lambda>i j. if i = 1 \<and> j = 0 then 1 else 0) 1
     = Some (Inr \<lparr>totalMatch = Some 0, matches = []\<rparr>)"
  by (simp add: lmm_eval pathScore_def)

text \<open>
  C2. \<open>totalMatch\<close> is claimed to be the sum of the returned \<open>matchVal\<close>s, the cell of
  \<open>bestRes\<close> being written as the last entry when its eval is positive. In
  \<^verbatim>\<open>src/lmm.cpp\<close>, on the 1 by 1 matrix with match value \<open>1/2\<close>, \<^verbatim>\<open>run\<close> assigns no
  \<open>totalMatch\<close> and returns one entry it never wrote. In part_000, on the 2 by 4 matrix
  with matches \<open>(0, 0)\<close> and \<open>(1, 3)\<close>, \<open>totalMatch\<close> is 2 and the only entry returned is
  \<open>(1, 3, 1)\<close>: the back-walk reads cell \<open>3\<close> for \<open>(0, 3)\<close>, which is the cell of \<open>(1, 1)\<close>.
\<close>

theorem C2_sum_differs:
  "construct_run 20 1 1 (\<lambda>i j. 1 / 2) 1 = Some (Inr \<lparr>totalMatch = None, matches = [None]\<rparr>) \<and>
   construct_run_p0 20 2 4 (\<lambda>i j. if (i = 0 \<and> j = 0) \<or> (i = 1 \<and> j = 3) then 1 else 0) 1
     = Some (Inr \<lparr>totalMatch = Some 2,
                  matches = [Some \<lparr>res_i = 1, res_j = 3, matchVal = 1\<rparr>]\<rparr>)"
  by (simp add: lmm_eval)

text \<open>
  C3. The identity scenario: \<open>W = H = 3\<close>, threshold 1, matcher 1 on the diagonal and 0
  elsewhere. \<^verbatim>\<open>run\<close> of \<^verbatim>\<open>src/lmm.cpp\<close> returns three entries, the first never written,
  then \<open>(0, 0, 1)\<close> and \<open>(1, 1, 1)\<close>, and no \<open>totalMatch\<close>; \<^verbatim>\<open>run\<close> of part_000 returns
  what the scenario expects.
\<close>

theorem C3_identity_3x3:
  "construct_run 10 3 3 (\<lambda>i j. if i = j then 1 else 0) 1
     = Some (Inr \<lparr>totalMatch = None,
                  matches = [None, Some \<lparr>res_i = 0, res_j = 0, matchVal = 1\<rparr>,
                             Some \<lparr>res_i = 1, res_j = 1, matchVal = 1\<rparr>]\<rparr>) \<and>
   construct_run_p0 10 3 3 (\<lambda>i j. if i = j then 1 else 0) 1
     = Some (Inr \<lparr>totalMatch = Some 3,
                  matches = [Some \<lparr>res_i = 0, res_j = 0, matchVal = 1\<rparr>,
                             Some \<lparr>res_i = 1, res_j = 1, matchVal = 1\<rparr>,
                             Some \<lparr>res_i = 2, res_j = 2, matchVal = 1\<rparr>]\<rparr>)"
  by (simp add: lmm_eval)

text \<open>
  C4. The flat index \<^verbatim>\<open>width * i + j\<close> is claimed to stay inside the \<open>W * H\<close> cells and
  to separate distinct pairs. With \<open>W = 2\<close>, \<open>H = 1\<close> the pair \<open>(1, 0)\<close> has index 2 in a
  matrix of 2 cells, and both revisions reach it on the all-zero matcher. With \<open>W = 2\<close>,
  \<open>H = 3\<close> the pairs \<open>(0, 2)\<close> and \<open>(1, 0)\<close> have the same index.
\<close>

theorem C4_index_out_of_range_and_shared:
  "map_sum id (\<lambda>st. (matchIndex st 1 0, length (matchMatrix st), match st 1 0))
     (LazyMatrixMarch 2 1 (\<lambda>i j. 0) 1) = Inr (2, 2, Inl OutOfBounds) \<and>
   construct_run 20 2 1 (\<lambda>i j. 0) 1 = Some (Inl OutOfBounds) \<and>
   construct_run_p0 20 2 1 (\<lambda>i j. 0) 1 = Some (Inl OutOfBounds) \<and>
   map_sum id (\<lambda>st. (matchIndex st 0 2, matchIndex st 1 0))
     (LazyMatrixMarch 2 3 (\<lambda>i j. 0) 1) = Inr (2, 2)"
  by (simp add: lmm_eval)

text \<open>
  C6. The returned matches are claimed strictly increasing with every \<open>matchVal\<close> in
  \<open>(0, 1]\<close>. On the 2 by 2 matrix with \<open>1/2\<close> on the diagonal, \<^verbatim>\<open>run\<close> of
  \<^verbatim>\<open>src/lmm.cpp\<close> returns an entry it never wrote followed by \<open>(0, 0, 1/2)\<close>; \<^verbatim>\<open>run\<close> of
  part_000 returns \<open>(0, 0, 1/2)\<close>, \<open>(1, 1, 1/2)\<close>, and returns valid matches on every
  input (\<open>run_p0_returns_valid_matches\<close>).
\<close>

theorem C6_unwritten_entry_returned:
  "construct_run 10 2 2 (\<lambda>i j. if i = j then 1 / 2 else 0) 1
     = Some (Inr \<lparr>totalMatch = None,
                  matches = [None, Some \<lparr>res_i = 0, res_j = 0, matchVal = 1 / 2\<rparr>]\<rparr>) \<and>
   \<not> validMatches [None, Some \<lparr>res_i = 0, res_j = 0, matchVal = 1 / 2\<rparr>] \<and>
   construct_run_p0 10 2 2 (\<lambda>i j. if i = j then 1 / 2 else 0) 1
     = Some (Inr \<lparr>totalMatch = Some 1,
                  matches = [Some \<lparr>res_i = 0, res_j = 0, matchVal = 1 / 2\<rparr>,
                             Some \<lparr>res_i = 1, res_j = 1, matchVal = 1 / 2\<rparr>]\<rparr>)"
  by (simp add: lmm_eval validMatches_def entryValid_def)

text \<open>
  C9. Two runs on the same inputs are claimed to return identical results. \<^verbatim>\<open>run\<close> of
  \<^verbatim>\<open>src/lmm.cpp\<close> returns a \<open>totalMatch\<close> it never assigned and a first entry it never
  wrote, here on the 1 by 1 matrix with match value 1: both hold what the memory held
  before. \<^verbatim>\<open>run\<close> of part_000 assigns both, on every input
  (\<open>run_p0_returns_valid_matches\<close>).
\<close>

theorem C9_result_not_determined:
  "construct_run 10 1 1 (\<lambda>i j. 1) 1 = Some (Inr \<lparr>totalMatch = None, matches = [None]\<rparr>) \<and>
   construct_run_p0 10 1 1 (\<lambda>i j. 1) 1
     = Some (Inr \<lparr>totalMatch = Some 1,
                  matches = [Some \<lparr>res_i = 0, res_j = 0, matchVal = 1\<rparr>]\<rparr>)"
  by (simp add: lmm_eval)

section \<open>Claims settled for every state the engine reaches\<close>

text \<open>
  C5, as the code has it. In every state either revision reaches, the frontier is ordered
  by non-increasing metric from head to tail, and \<^verbatim>\<open>insertCandidate\<close> puts the new
  candidate behind the entries of strictly greater metric and in front of all others:
  a candidate whose metric equals that of existing entries goes before them, not after.
  The frontier stays ordered.
\<close>

theorem C5_queue_sorted_insert_before_equal:
  assumes "construct_steps n w h f thr = Inr st \<or> construct_steps_p0 n w h f thr = Inr st"
  shows "sorted_wrt (\<lambda>a b. metric st a \<ge> metric st b) (queue st) \<and>
         queue (insertCandidate st i j sc) =
           takeWhile (\<lambda>x. metric st x > metric st \<lparr>cand_i = i, cand_j = j, score = sc\<rparr>) (queue st)
           @ \<lparr>cand_i = i, cand_j = j, score = sc\<rparr>
           # dropWhile (\<lambda>x. metric st x > metric st \<lparr>cand_i = i, cand_j = j, score = sc\<rparr>) (queue st) \<and>
         sorted_wrt (\<lambda>a b. metric st a \<ge> metric st b) (queue (insertCandidate st i j sc))"
proof -
  from reachable_frontierInv[OF assms] have s: "sorted_wrt (\<lambda>a b. metric st a \<ge> metric st b) (queue st)"
    by (simp add: frontierInv_def sortedQueue_def)
  from insertLoop_sorted[OF s] s show ?thesis
    by (simp add: queue_insertCandidate insertLoop_takeWhile[symmetric])
qed

theorem C5_witness:
  "\<exists>st. construct_steps 1 2 2 (\<lambda>i j. 0) 1 = Inr st \<and>
     queue st = [\<lparr>cand_i = 0, cand_j = 1, score = 0\<rparr>, \<lparr>cand_i = 1, cand_j = 0, score = 0\<rparr>] \<and>
     sorted_wrt (\<lambda>a b. metric st a \<ge> metric st b) (queue st) \<and>
     queue (insertCandidate st 1 1 0) =
       [\<lparr>cand_i = 1, cand_j = 1, score = 0\<rparr>, \<lparr>cand_i = 0, cand_j = 1, score = 0\<rparr>,
        \<lparr>cand_i = 1, cand_j = 0, score = 0\<rparr>]"
proof -
  have "\<exists>st. construct_steps 1 2 2 (\<lambda>i j. 0) 1 = Inr st \<and>
     queue st = [\<lparr>cand_i = 0, cand_j = 1, score = 0\<rparr>, \<lparr>cand_i = 1, cand_j = 0, score = 0\<rparr>] \<and>
     width st = 2 \<and> height st = 2"
    by (simp add: lmm_eval)
  then obtain st where s: "construct_steps 1 2 2 (\<lambda>i j. 0) 1 = Inr st"
    and q: "queue st = [\<lparr>cand_i = 0, cand_j = 1, score = 0\<rparr>, \<lparr>cand_i = 1, cand_j = 0, score = 0\<rparr>]"
    and d: "width st = 2" "height st = 2" by blast
  from C5_queue_sorted_insert_before_equal[OF disjI1[OF s], of 1 1 0] q d
  have "sorted_wrt (\<lambda>a b. metric st a \<ge> metric st b) (queue st) \<and>
     queue (insertCandidate st 1 1 0) =
       [\<lparr>cand_i = 1, cand_j = 1, score = 0\<rparr>, \<lparr>cand_i = 0, cand_j = 1, score = 0\<rparr>,
        \<lparr>cand_i = 1, cand_j = 0, score = 0\<rparr>]"
    by (simp add: metric_def maxPossibleScore_def maxPossibleScore_free_def u32_sub_def)
  with s q show ?thesis by blast
qed


text \<open>
  The claim as stated fails. In the first step on the 2 by 2 all-zero matrix, line 82
  inserts \<open>(1, 0, 0)\<close> and line 83 inserts \<open>(0, 1, 0)\<close>; both have metric 1, and the later
  one is the head. Inserting \<open>(0, 1, 0)\<close> into the frontier \<open>[(1, 0, 0)]\<close> puts it first,
  where the insert of the specification puts it second.
\<close>

theorem C5_equal_metric_inserted_first:
  "map_sum id (\<lambda>st. (queue st, map (metric st) (queue st)))
     (construct_steps 1 2 2 (\<lambda>i j. 0) 1)
     = Inr ([\<lparr>cand_i = 0, cand_j = 1, score = 0\<rparr>, \<lparr>cand_i = 1, cand_j = 0, score = 0\<rparr>], [1, 1]) \<and>
   map_sum id (\<lambda>st. (queue (insertCandidate (st\<lparr>queue := [\<lparr>cand_i = 1, cand_j = 0, score = 0\<rparr>]\<rparr>) 0 1 0),
                     insertAfterEqual (metric st) \<lparr>cand_i = 0, cand_j = 1, score = 0\<rparr>
                       [\<lparr>cand_i = 1, cand_j = 0, score = 0\<rparr>]))
     (LazyMatrixMarch 2 2 (\<lambda>i j. 0) 1)
     = Inr ([\<lparr>cand_i = 0, cand_j = 1, score = 0\<rparr>, \<lparr>cand_i = 1, cand_j = 0, score = 0\<rparr>],
            [\<lparr>cand_i = 1, cand_j = 0, score = 0\<rparr>, \<lparr>cand_i = 0, cand_j = 1, score = 0\<rparr>])"
  by (simp add: lmm_eval)

text \<open>
  C10. Every call of the matcher has arguments inside the matrix: in every state either
  revision reaches from the constructor by calls of \<^verbatim>\<open>step\<close> (and \<^verbatim>\<open>run\<close> only calls
  \<^verbatim>\<open>step\<close> before it gathers the result, see \<open>drain_steps\<close>), every logged call
  \<open>(i, j)\<close> has \<open>i < W\<close> and \<open>j < H\<close>. The constructor calls no matcher.
\<close>

theorem C10_matcher_arguments_in_range:
  assumes "construct_steps n w h f thr = Inr st \<or> construct_steps_p0 n w h f thr = Inr st"
  shows "list_all (\<lambda>p. fst p < w \<and> snd p < h) (evalLog st)"
  using reachable_frontierInv[OF assms] by (auto simp: frontierInv_def logInRange_def)

theorem C10_witness:
  "\<exists>st. construct_steps 3 3 3 (\<lambda>i j. if i = j then 1 else 0) 1 = Inr st \<and>
        evalLog st = [(0, 0), (1, 1), (2, 2)] \<and>
        list_all (\<lambda>p. fst p < 3 \<and> snd p < 3) (evalLog st)"
proof -
  have "\<exists>st. construct_steps 3 3 3 (\<lambda>i j. if i = j then 1 else 0) 1 = Inr st \<and>
        evalLog st = [(0, 0), (1, 1), (2, 2)]"
    by (simp add: lmm_eval)
  then obtain st where s: "construct_steps 3 3 3 (\<lambda>i j. if i = j then 1 else 0) 1 = Inr st"
    and l: "evalLog st = [(0, 0), (1, 1), (2, 2)]" by blast
  from C10_matcher_arguments_in_range[OF disjI1[OF s]] s l show ?thesis by blast
qed

text \<open>
  C8. In every state either revision reaches from the constructor by calls of \<^verbatim>\<open>step\<close>,
  with a matcher that keeps its contract (values in \<open>[0, 1]\<close>): no pair \<open>(i, j)\<close> is in
  the log of matcher calls twice, \<^verbatim>\<open>numEvals_\<close> is the number of calls, and it is at
  most \<open>W * H\<close>.
\<close>

theorem C8_each_cell_evaluated_at_most_once:
  assumes "construct_steps n w h f thr = Inr st \<or> construct_steps_p0 n w h f thr = Inr st"
    and "\<And>i j. 0 \<le> f i j \<and> f i j \<le> 1"
  shows "distinct (evalLog st) \<and> numEvals st = length (evalLog st) \<and> numEvals st \<le> w * h"
proof -
  from assms(1) obtain st0 where c: "LazyMatrixMarch w h f thr = Inr st0"
    and r: "steps n st0 = Inr st \<or> steps_p0 n st0 = Inr st"
    by (auto simp: construct_steps_def construct_steps_p0_def split: sum.splits)
  from LazyMatrixMarch_Inr[OF c] have f0: "frontierInv st0" and m0: "matcher st0 = f" by simp_all
  have ne: "\<And>i j. matcher st0 i j \<noteq> -1"
  proof -
    fix i j
    from assms(2)[of i j] show "matcher st0 i j \<noteq> -1" by (simp add: m0)
  qed
  from r have "evalsInv st"
    using steps_evalsInv[OF _ f0 LazyMatrixMarch_evalsInv[OF c] ne]
      steps_p0_evalsInv[OF _ f0 LazyMatrixMarch_evalsInv[OF c] ne] by blast
  from evalsInv_count[OF this] reachable_frontierInv[OF assms(1)] show ?thesis by simp
qed

theorem C8_witness:
  "(\<forall>i j. (0::real) \<le> (if i = j then 1 else 0) \<and> (if (i::nat) = (j::nat) then 1 else 0) \<le> (1::real)) \<and>
   (\<exists>st. construct_steps 3 3 3 (\<lambda>i j. if i = j then 1 else 0) 1 = Inr st \<and>
        evalLog st = [(0, 0), (1, 1), (2, 2)] \<and> numEvals st = 3 \<and>
        distinct (evalLog st) \<and> numEvals st = length (evalLog st) \<and> numEvals st \<le> 3 * 3)"
proof -
  have h: "\<And>i j. (0::real) \<le> (if (i::nat) = (j::nat) then 1 else 0) \<and> (if i = j then 1 else 0) \<le> (1::real)"
    by simp
  have "\<exists>st. construct_steps 3 3 3 (\<lambda>i j. if i = j then 1 else 0) 1 = Inr st \<and>
        evalLog st = [(0, 0), (1, 1), (2, 2)] \<and> numEvals st = 3"
    by (simp add: lmm_eval)
  then obtain st where s: "construct_steps 3 3 3 (\<lambda>i j. if i = j then 1 else 0) 1 = Inr st"
    and l: "evalLog st = [(0, 0), (1, 1), (2, 2)]" "numEvals st = 3" by blast
  from C8_each_cell_evaluated_at_most_once[OF disjI1[OF s] h] s l h show ?thesis by blast
qed

text \<open>
  C7, as the code has it by design. In the revision of part_000 (the prune under
  \<^verbatim>\<open>SLOW_BUT_CORRECT_IMPL\<close>), with \<^verbatim>\<open>u32\<close> dimensions and a matcher that keeps its
  contract, in every state reached from the constructor by calls of \<^verbatim>\<open>step\<close>: every
  candidate of the frontier, so the one the next call pops, has an upper bound
  \<open>score + min (W - i) (H - j)\<close> greater than or equal to \<open>bestMatch\<close>, and the next call
  of \<^verbatim>\<open>step\<close> fails no assertion.
\<close>

theorem C7_popped_bound_not_below_bestMatch:
  assumes "construct_steps_p0 n w h f thr = Inr st"
    and "\<And>i j. 0 \<le> f i j \<and> f i j \<le> 1"
    and "w < 4294967296" "h < 4294967296"
  shows "list_all (\<lambda>c. bestMatch st \<le> upperBound st c) (queue st) \<and>
         step_p0 st \<noteq> Inl AssertionFailed"
proof -
  from assms(1) obtain st0 where c: "LazyMatrixMarch w h f thr = Inr st0"
    and r: "steps_p0 n st0 = Inr st"
    by (auto simp: construct_steps_p0_def split: sum.splits)
  from LazyMatrixMarch_Inr[OF c] have m0: "matcher st0 = f" by simp
  have "fullInv st"
    using steps_p0_fullInv[OF r LazyMatrixMarch_fullInv[OF c assms(3,4)]] assms(2) m0 by simp
  then have fr: "frontierInv st" and bd: "boundInv st" by (simp_all add: fullInv_def)
  from step_p0_no_assertion[OF fr bd] bd show ?thesis by (simp add: boundInv_def)
qed


theorem C7_witness:
  "(\<forall>i j. (0::real) \<le> (if (i::nat) = (j::nat) then 1 / 2 else 0) \<and>
           (if i = j then 1 / 2 else 0) \<le> (1::real)) \<and>
   (2::nat) < 4294967296 \<and>
   (\<exists>st. construct_steps_p0 2 2 2 (\<lambda>i j. if i = j then 1 / 2 else 0) 1 = Inr st \<and>
         bestMatch st = 1 \<and>
         queue st = [\<lparr>cand_i = 0, cand_j = 1, score = 0\<rparr>, \<lparr>cand_i = 1, cand_j = 0, score = 0\<rparr>] \<and>
         list_all (\<lambda>c. bestMatch st \<le> upperBound st c) (queue st) \<and>
         step_p0 st \<noteq> Inl AssertionFailed)"
proof -
  have h: "\<And>i j. (0::real) \<le> (if (i::nat) = (j::nat) then 1 / 2 else 0) \<and>
                  (if i = j then 1 / 2 else 0) \<le> (1::real)"
    by simp
  have d: "(2::nat) < 4294967296" by simp
  have "\<exists>st. construct_steps_p0 2 2 2 (\<lambda>i j. if i = j then 1 / 2 else 0) 1 = Inr st \<and>
         bestMatch st = 1 \<and>
         queue st = [\<lparr>cand_i = 0, cand_j = 1, score = 0\<rparr>, \<lparr>cand_i = 1, cand_j = 0, score = 0\<rparr>]"
    by (simp add: lmm_eval)
  then obtain st where s: "construct_steps_p0 2 2 2 (\<lambda>i j. if i = j then 1 / 2 else 0) 1 = Inr st"
    and b: "bestMatch st = 1"
    and q: "queue st = [\<lparr>cand_i = 0, cand_j = 1, score = 0\<rparr>, \<lparr>cand_i = 1, cand_j = 0, score = 0\<rparr>]"
    by blast
  from C7_popped_bound_not_below_bestMatch[OF s h d d] s b q h d show ?thesis by blast
qed


text \<open>
  The claim as stated asks for a strictly greater bound. On the 2 by 2 matrix with \<open>1/2\<close>
  on the diagonal, after two steps \<open>bestMatch\<close> is 1 and the head \<open>(0, 1, 0)\<close> has the
  upper bound 1; the third step pops it, in both revisions.
\<close>

theorem C7_popped_bound_equals_bestMatch:
  "map_sum id (\<lambda>st. (bestMatch st, map (upperBound st) (queue st)))
     (construct_steps 2 2 2 (\<lambda>i j. if i = j then 1 / 2 else 0) 1) = Inr (1, [1, 1]) \<and>
   map_sum id (\<lambda>st. (bestMatch st, map (upperBound st) (queue st)))
     (construct_steps 3 2 2 (\<lambda>i j. if i = j then 1 / 2 else 0) 1) = Inr (1, [1]) \<and>
   map_sum id (\<lambda>st. (bestMatch st, map (upperBound st) (queue st)))
     (construct_steps_p0 2 2 2 (\<lambda>i j. if i = j then 1 / 2 else 0) 1) = Inr (1, [1, 1]) \<and>
   map_sum id (\<lambda>st. (bestMatch st, map (upperBound st) (queue st)))
     (construct_steps_p0 3 2 2 (\<lambda>i j. if i = j then 1 / 2 else 0) 1) = Inr (1, [1])"
  by (simp add: lmm_eval)


text \<open>
  The revision of \<^verbatim>\<open>src/lmm.cpp\<close> is left out of C7: its \<^verbatim>\<open>prune\<close> stops at the first
  node from the tail whose upper bound reaches \<open>minScore\<close>, and the frontier is ordered
  by metric, not by upper bound. On the 4 by 4 matrix with the diagonal
  \<open>127/128, 1, 1/128, 1\<close>, after four steps \<open>bestMatch\<close> is 3 and the head has the upper
  bound \<open>383/128\<close>: the fifth call of \<^verbatim>\<open>step\<close> fails the assertion of line 51. part_000
  has pruned both such candidates.
\<close>

lemma lmm_cpp_pop_assertion_fails:
  "map_sum id (\<lambda>st. (bestMatch st, map (upperBound st) (queue st)))
     (construct_steps 4 4 4
        (\<lambda>i j. if i = j then (if i = 0 then 127 / 128 else if i = 2 then 1 / 128 else 1) else 0) 1)
     = Inr (3, [383 / 128, 383 / 128, 3, 3]) \<and>
   construct_steps 5 4 4
     (\<lambda>i j. if i = j then (if i = 0 then 127 / 128 else if i = 2 then 1 / 128 else 1) else 0) 1
     = Inl AssertionFailed \<and>
   map_sum id (\<lambda>st. (bestMatch st, map (upperBound st) (queue st)))
     (construct_steps_p0 4 4 4
        (\<lambda>i j. if i = j then (if i = 0 then 127 / 128 else if i = 2 then 1 / 128 else 1) else 0) 1)
     = Inr (3, [3, 3])"
  by (simp add: lmm_eval)

end
